theory Spec2Isabelle
  imports Main "HOL-Library.Multiset"
begin

section \<open>The markup tree\<close>

text \<open>
  The renderer of \<^verbatim>\<open>src/src/main.js\<close> (\<^verbatim>\<open>HTMLRendererPlugin.toHTMLDOM\<close>) drives a DOM.
  A DOM node is an element (tag name, attributes in the order they were set, class list,
  the expando property \<^verbatim>\<open>fltColumns\<close> that the TABLE handler stores on a table, child
  nodes), a text node or a comment.
\<close>

datatype node =
    Element string "(string \<times> string) list" "string list" "nat option" "node list"
  | Text string
  | Comment string

text \<open>
  A node of a tree is addressed by the child indexes that lead to it from the root.
  The loop only ever appends children below the current section, so the address of a
  node it holds a reference to (\<^verbatim>\<open>link\<close>) stays the same while the reference is live.
\<close>

type_synonym path = "nat list"

fun tagName :: "node \<Rightarrow> string option" where
  "tagName (Element t a c f ks) = Some t"
| "tagName (Text s) = None"
| "tagName (Comment s) = None"

fun childNodes :: "node \<Rightarrow> node list" where
  "childNodes (Element t a c f ks) = ks"
| "childNodes (Text s) = []"
| "childNodes (Comment s) = []"

fun attributes :: "node \<Rightarrow> (string \<times> string) list" where
  "attributes (Element t a c f ks) = a"
| "attributes (Text s) = []"
| "attributes (Comment s) = []"

fun classList :: "node \<Rightarrow> string list" where
  "classList (Element t a c f ks) = c"
| "classList (Text s) = []"
| "classList (Comment s) = []"

fun fltColumns :: "node \<Rightarrow> nat option" where
  "fltColumns (Element t a c f ks) = f"
| "fltColumns (Text s) = None"
| "fltColumns (Comment s) = None"

definition createElement :: "string \<Rightarrow> node" where
  "createElement t = Element t [] [] None []"

text \<open>\<^verbatim>\<open>el.hasChildNodes()\<close>\<close>

definition hasChildNodes :: "node \<Rightarrow> bool" where
  "hasChildNodes n = (childNodes n \<noteq> [])"

text \<open>\<^verbatim>\<open>el.setAttribute(k, v)\<close>: replaces the value of an attribute that is set, else adds it.\<close>

fun set_attr :: "string \<Rightarrow> string \<Rightarrow> (string \<times> string) list \<Rightarrow> (string \<times> string) list" where
  "set_attr k v [] = [(k, v)]"
| "set_attr k v ((k', v') # a) = (if k' = k then (k, v) # a else (k', v') # set_attr k v a)"

fun setAttribute :: "string \<Rightarrow> string \<Rightarrow> node \<Rightarrow> node" where
  "setAttribute k v (Element t a c f ks) = Element t (set_attr k v a) c f ks"
| "setAttribute k v (Text s) = Text s"
| "setAttribute k v (Comment s) = Comment s"

text \<open>\<^verbatim>\<open>el.classList.add(c)\<close>: a class already present is not added again.\<close>

fun classList_add :: "string \<Rightarrow> node \<Rightarrow> node" where
  "classList_add cl (Element t a c f ks) =
     Element t a (if cl \<in> set c then c else c @ [cl]) f ks"
| "classList_add cl (Text s) = Text s"
| "classList_add cl (Comment s) = Comment s"

text \<open>\<^verbatim>\<open>el.textContent = s\<close>: the children are replaced by one text node (none for the empty string).\<close>

fun set_textContent :: "string \<Rightarrow> node \<Rightarrow> node" where
  "set_textContent s (Element t a c f ks) = Element t a c f (if s = [] then [] else [Text s])"
| "set_textContent s (Text s') = Text s"
| "set_textContent s (Comment s') = Comment s"

text \<open>The element with tag \<open>t\<close>: \<^verbatim>\<open>instanceof\<close> tests and simple tag selectors.\<close>

definition is_tag :: "string \<Rightarrow> node \<Rightarrow> bool" where
  "is_tag t n = (tagName n = Some t)"

text \<open>A selector group of tag names, as in \<^verbatim>\<open>"th, td"\<close>.\<close>

definition matches :: "string list \<Rightarrow> node \<Rightarrow> bool" where
  "matches sel n = (case tagName n of None \<Rightarrow> False | Some t \<Rightarrow> t \<in> set sel)"

text \<open>The node at an address, if there is one.\<close>

fun node_at :: "path \<Rightarrow> node \<Rightarrow> node option" where
  "node_at [] n = Some n"
| "node_at (i # p) n =
     (if i < length (childNodes n) then node_at p (childNodes n ! i) else None)"

text \<open>
  \<^verbatim>\<open>parent.appendChild(child)\<close> for the parent at address \<open>p\<close>: the new tree and the address
  of the appended child. There is no result when \<open>p\<close> addresses no element: the source
  would be calling \<^verbatim>\<open>appendChild\<close> on \<^verbatim>\<open>undefined\<close>.
\<close>

fun appendChild :: "path \<Rightarrow> node \<Rightarrow> node \<Rightarrow> (node \<times> path) option" where
  "appendChild [] c (Element t a cl f ks) = Some (Element t a cl f (ks @ [c]), [length ks])"
| "appendChild [] c (Text s) = None"
| "appendChild [] c (Comment s) = None"
| "appendChild (i # p) c (Element t a cl f ks) =
     (if i < length ks then
        (case appendChild p c (ks ! i) of
           None \<Rightarrow> None
         | Some (k', q) \<Rightarrow> Some (Element t a cl f (ks[i := k']), i # q))
      else None)"
| "appendChild (i # p) c (Text s) = None"
| "appendChild (i # p) c (Comment s) = None"

text \<open>Changing the node at an address in place (attribute setters on a held reference).\<close>

fun update_at :: "path \<Rightarrow> (node \<Rightarrow> node) \<Rightarrow> node \<Rightarrow> node option" where
  "update_at [] g n = Some (g n)"
| "update_at (i # p) g (Element t a cl f ks) =
     (if i < length ks then
        (case update_at p g (ks ! i) of
           None \<Rightarrow> None
         | Some k' \<Rightarrow> Some (Element t a cl f (ks[i := k'])))
      else None)"
| "update_at (i # p) g (Text s) = None"
| "update_at (i # p) g (Comment s) = None"

text \<open>
  \<^verbatim>\<open>root.querySelectorAll(sel)\<close> for a group of tag selectors: the addresses of the matching
  descendants of the root (the root itself is never a result), in document order.
\<close>

fun querySelectorAll :: "string list \<Rightarrow> node \<Rightarrow> path list"
  and qsa_from :: "string list \<Rightarrow> nat \<Rightarrow> node list \<Rightarrow> path list" where
  "querySelectorAll sel (Element t a c f ks) = qsa_from sel 0 ks"
| "querySelectorAll sel (Text s) = []"
| "querySelectorAll sel (Comment s) = []"
| "qsa_from sel i [] = []"
| "qsa_from sel i (k # ks) =
     (if matches sel k then [[i]] else []) @ map ((#) i) (querySelectorAll sel k)
       @ qsa_from sel (Suc i) ks"

text \<open>\<^verbatim>\<open>[...list].slice(-1)[0]\<close>: the last entry, \<^verbatim>\<open>undefined\<close> for the empty list.\<close>

definition last_of :: "'a list \<Rightarrow> 'a option" where
  "last_of xs = (if xs = [] then None else Some (last xs))"

text \<open>\<^verbatim>\<open>root.querySelector(sel)\<close>: the first match in document order, or \<^verbatim>\<open>null\<close>.\<close>

definition querySelector :: "string list \<Rightarrow> node \<Rightarrow> path option" where
  "querySelector sel n = (case querySelectorAll sel n of [] \<Rightarrow> None | p # ps \<Rightarrow> Some p)"

text \<open>
  \<^verbatim>\<open>root.querySelector("t:last-of-type")\<close>: the first descendant in document order that is
  a \<open>t\<close> element with no later sibling of tag \<open>t\<close>.
\<close>

fun querySelector_last_of_type :: "string \<Rightarrow> node \<Rightarrow> path option"
  and qslot_from :: "string \<Rightarrow> nat \<Rightarrow> node list \<Rightarrow> path option" where
  "querySelector_last_of_type t (Element t' a c f ks) = qslot_from t 0 ks"
| "querySelector_last_of_type t (Text s) = None"
| "querySelector_last_of_type t (Comment s) = None"
| "qslot_from t i [] = None"
| "qslot_from t i (k # ks) =
     (if is_tag t k \<and> \<not> list_ex (is_tag t) ks then Some [i]
      else (case querySelector_last_of_type t k of
              Some p \<Rightarrow> Some (i # p)
            | None \<Rightarrow> qslot_from t (Suc i) ks))"

text \<open>
  \<^verbatim>\<open>el.closest(sel)\<close> for the element at address \<open>p\<close> of the current section: the
  nearest of the element and its ancestors that matches. The ancestors above the section
  (\<^verbatim>\<open>body\<close>, \<^verbatim>\<open>html\<close>) match none of the selectors the source passes.
\<close>

fun closest :: "string list \<Rightarrow> node \<Rightarrow> path \<Rightarrow> nat \<Rightarrow> path option" where
  "closest sel root p 0 = (if matches sel root then Some [] else None)"
| "closest sel root p (Suc k) =
     (case node_at (take (Suc k) p) root of
        Some n \<Rightarrow> if matches sel n then Some (take (Suc k) p) else closest sel root p k
      | None \<Rightarrow> closest sel root p k)"

text \<open>\<^verbatim>\<open>out.contains(link)\<close>: \<open>link\<close> is \<open>out\<close> or one of its descendants.\<close>

definition contains_node :: "path \<Rightarrow> path \<Rightarrow> bool" where
  "contains_node out l = (take (length out) l = out)"

text \<open>\<^verbatim>\<open>el.lastElementChild\<close>: the index of the last child that is an element.\<close>

fun lastElementChild :: "node list \<Rightarrow> nat option" where
  "lastElementChild [] = None"
| "lastElementChild (k # ks) =
     (case lastElementChild ks of
        Some i \<Rightarrow> Some (Suc i)
      | None \<Rightarrow> (if tagName k \<noteq> None then Some 0 else None))"


section \<open>Lines and the render context\<close>

text \<open>
  The lines come from the host library (\<^verbatim>\<open>@ficlabapp/flt\<close>), which is not part of this
  repository. A typed line carries \<^verbatim>\<open>lineType\<close> and the fields its handler reads; every
  line carries \<^verbatim>\<open>reset\<close>. \<^verbatim>\<open>content\<close> is a string or \<^verbatim>\<open>null\<close>, for a TABLE line the
  declared column count.
\<close>

datatype align = ALIGN_LEFT | ALIGN_CENTER | ALIGN_RIGHT | ALIGN_NONE

datatype destination = D_BODY | D_NOTE | D_CELL | D_HEAD

datatype type_line =
    T_SECTION align bool                \<comment> \<open>\<^verbatim>\<open>align\<close>, \<^verbatim>\<open>break\<close>\<close>
  | T_PARAGRAPH align                   \<comment> \<open>\<^verbatim>\<open>align\<close>\<close>
  | T_HINT "string option"              \<comment> \<open>\<^verbatim>\<open>content\<close>\<close>
  | T_LINK "string option"              \<comment> \<open>\<^verbatim>\<open>content\<close>\<close>
  | T_ANCHOR "string option"            \<comment> \<open>\<^verbatim>\<open>content\<close>\<close>
  | T_BLOB string string                \<comment> \<open>\<^verbatim>\<open>mediaType\<close>, \<^verbatim>\<open>data\<close>\<close>
  | T_IMAGE "string option"             \<comment> \<open>\<^verbatim>\<open>content\<close>\<close>
  | T_TABLE nat                         \<comment> \<open>\<^verbatim>\<open>content\<close>\<close>
  | T_DESTINATION destination bool      \<comment> \<open>\<^verbatim>\<open>destination\<close>, \<^verbatim>\<open>header\<close>\<close>
  | T_OTHER                             \<comment> \<open>a line type the \<^verbatim>\<open>switch\<close> has no case for\<close>

record text_line =
  line_text :: string
  italic :: bool
  bold :: bool
  underline :: bool
  strikeout :: bool
  mono' :: bool
  supertext :: bool
  subtext :: bool

datatype line =
    TypeLine bool type_line     \<comment> \<open>\<^verbatim>\<open>reset\<close>, the typed line\<close>
  | TextLine bool text_line     \<comment> \<open>\<^verbatim>\<open>reset\<close>, the text line\<close>
  | OtherLine bool              \<comment> \<open>\<^verbatim>\<open>reset\<close>; neither a typed nor a text line (metadata)\<close>

text \<open>
  What a pass can throw: the library's \<^verbatim>\<open>FLTError\<close> with its message, and the errors of
  the JavaScript runtime (a property read on \<^verbatim>\<open>undefined\<close> or \<^verbatim>\<open>null\<close>; a \<^verbatim>\<open>BigInt\<close>
  remainder by zero). Before the pass, \<^verbatim>\<open>classList.add\<close> throws a \<^verbatim>\<open>DOMException\<close> on a
  class token that is empty or holds white space.
\<close>

datatype error = FLTError string | TypeError | RangeError | DOMException

text \<open>
  The render context: the variables the loop closes over. \<open>sect\<close> is the section the
  variable \<^verbatim>\<open>sect\<close> refers to. It is always the last child of \<^verbatim>\<open>document.body\<close> (it is
  appended there when it is created, later nodes are appended below it or inserted before
  it), so the body is kept as the children before the section (\<open>body\<close>) and the section
  itself; addresses (\<open>link\<close>, the results of \<open>destEl\<close>) are relative to the section.
\<close>

record ctx =
  noteIndex :: nat
  link :: "path option"
  hint :: "string option"
  blob :: "(string \<times> string) option"
  body :: "node list"
  sect :: node
  dest :: destination

type_synonym 'a result = "(error \<times> ctx) + 'a"

text \<open>The alignment class table.\<close>

fun alignClasses :: "align \<Rightarrow> string option" where
  "alignClasses ALIGN_LEFT = Some ''align-left''"
| "alignClasses ALIGN_CENTER = Some ''align-center''"
| "alignClasses ALIGN_RIGHT = Some ''align-right''"
| "alignClasses ALIGN_NONE = None"

text \<open>\<^verbatim>\<open>if (line.align in alignClasses) el.classList.add(alignClasses[line.align])\<close>\<close>

definition add_align :: "align \<Rightarrow> node \<Rightarrow> node" where
  "add_align al n = (case alignClasses al of None \<Rightarrow> n | Some c \<Rightarrow> classList_add c n)"

text \<open>JavaScript's truth value of a string or \<^verbatim>\<open>null\<close>, and its conversion to a string.\<close>

fun truthy :: "string option \<Rightarrow> bool" where
  "truthy None = False"
| "truthy (Some s) = (s \<noteq> [])"

fun js_string :: "string option \<Rightarrow> string" where
  "js_string None = ''null''"
| "js_string (Some s) = s"

text \<open>A number in a template literal: its decimal digits.\<close>

definition digit :: "nat \<Rightarrow> char" where
  "digit n = ''0123456789'' ! n"

function dec :: "nat \<Rightarrow> string" where
  "dec n = (if n < 10 then [digit n] else dec (n div 10) @ [digit (n mod 10)])"
  by pat_completeness auto
termination
  by (relation "measure id") auto

declare dec.simps [simp del]

text \<open>\<^verbatim>\<open>if (hint) el.setAttribute("title", hint), (hint = null)\<close>\<close>

definition use_hint :: "string option \<Rightarrow> node \<Rightarrow> node" where
  "use_hint h n = (if truthy h then setAttribute ''title'' (js_string h) n else n)"

definition clear_hint :: "string option \<Rightarrow> string option" where
  "clear_hint h = (if truthy h then None else h)"

section \<open>The destination element\<close>

text \<open>
  \<^verbatim>\<open>destEl()\<close>: the element that content goes to, recomputed from the tree at each call.
  For D_NOTE and D_CELL a missing note or cell is a \<^verbatim>\<open>TypeError\<close> (a method call on
  \<^verbatim>\<open>undefined\<close>); where the source would return \<^verbatim>\<open>undefined\<close> (a note without paragraph),
  every caller calls a method on the result at once, before it changes anything.
\<close>

definition append_to_sect :: "node \<Rightarrow> ctx \<Rightarrow> (ctx \<times> path) result" where
  "append_to_sect c s =
     (case appendChild [] c (sect s) of
        None \<Rightarrow> Inl (TypeError, s)
      | Some (t, q) \<Rightarrow> Inr (s\<lparr>sect := t\<rparr>, q))"

definition last_child_or_new :: "string \<Rightarrow> ctx \<Rightarrow> (ctx \<times> path) result" where
  "last_child_or_new t s =
     (case lastElementChild (childNodes (sect s)) of
        None \<Rightarrow> append_to_sect (createElement t) s
      | Some i \<Rightarrow>
          if is_tag t (childNodes (sect s) ! i) then Inr (s, [i])
          else append_to_sect (createElement t) s)"

definition destEl :: "ctx \<Rightarrow> (ctx \<times> path) result" where
  "destEl s =
     (case dest s of
        D_BODY \<Rightarrow> last_child_or_new ''p'' s
      | D_NOTE \<Rightarrow>
          (case last_of (querySelectorAll [''aside'', ''notAnElement''] (sect s)) of
             None \<Rightarrow> Inl (TypeError, s)
           | Some np \<Rightarrow>
               (case node_at np (sect s) of
                  None \<Rightarrow> Inl (TypeError, s)
                | Some note \<Rightarrow>
                    (case last_of (querySelectorAll [''p'', ''notAnElement''] note) of
                       None \<Rightarrow> Inl (TypeError, s)
                     | Some pp \<Rightarrow> Inr (s, np @ pp))))
      | D_CELL \<Rightarrow>
          (case last_of (querySelectorAll [''th'', ''td''] (sect s)) of
             None \<Rightarrow> Inl (TypeError, s)
           | Some cp \<Rightarrow>
               (case node_at cp (sect s) of
                  None \<Rightarrow> Inl (TypeError, s)
                | Some cell \<Rightarrow>
                    (case last_of (querySelectorAll [''aside'', ''p''] cell) of
                       None \<Rightarrow> Inr (s, cp)
                     | Some cont \<Rightarrow> Inr (s, cp @ cont))))
      | D_HEAD \<Rightarrow> last_child_or_new ''h2'' s)"

text \<open>\<^verbatim>\<open>destEl().appendChild(c)\<close>, with the context the callers go on with.\<close>

definition append_at_dest :: "node \<Rightarrow> ctx \<Rightarrow> (ctx \<times> path) result" where
  "append_at_dest c s =
     (case destEl s of
        Inl e \<Rightarrow> Inl e
      | Inr (s1, p) \<Rightarrow>
          (case appendChild p c (sect s1) of
             None \<Rightarrow> Inl (TypeError, s1)
           | Some (t, q) \<Rightarrow> Inr (s1\<lparr>sect := t\<rparr>, q)))"


section \<open>The handlers of the typed lines\<close>

text \<open>
  Where the source appends a fresh element and then sets its attributes
  (\<^verbatim>\<open>a = destEl().appendChild(document.createElement("a")); a.setAttribute(...)\<close>), the
  handler appends the element with these attributes: nothing reads the tree in between.
  The IMAGE handler is the exception (it can throw between the two), so there the
  attributes are set through the address of the appended element.
  A failing handler returns the error with the context as it is when the error is thrown.
\<close>

text \<open>\<^verbatim>\<open>reset()\<close>, called first for a line whose \<^verbatim>\<open>reset\<close> flag is set.\<close>

definition reset :: "ctx \<Rightarrow> ctx" where
  "reset s = s\<lparr>link := None, hint := None\<rparr>"

text \<open>
  T_SECTION. \<^verbatim>\<open>sect.parentElement.querySelector("section") !== sect\<close> holds when a section
  stands before the new one in the body.
\<close>

definition section_before :: "node list \<Rightarrow> bool" where
  "section_before b =
     list_ex (\<lambda>n. is_tag ''section'' n \<or> querySelector [''section''] n \<noteq> None) b"

definition section_line :: "align \<Rightarrow> bool \<Rightarrow> ctx \<Rightarrow> ctx" where
  "section_line al br s =
     (let b1 = (if hasChildNodes (sect s) then body s @ [sect s] else body s);
          b2 = (if br \<and> section_before b1 then b1 @ [createElement ''hr''] else b1)
      in s\<lparr>link := None, dest := D_BODY, body := b2,
           sect := add_align al (createElement ''section'')\<rparr>)"

text \<open>T_PARAGRAPH\<close>

definition paragraph_line :: "align \<Rightarrow> ctx \<Rightarrow> ctx result" where
  "paragraph_line al s =
     (case destEl (s\<lparr>link := None\<rparr>) of
        Inl e \<Rightarrow> Inl e
      | Inr (s1, p) \<Rightarrow>
          (case closest [''aside'', ''td'', ''th'', ''section''] (sect s1) p (length p) of
             None \<Rightarrow> Inl (TypeError, s1)
           | Some cont \<Rightarrow>
               (case appendChild cont (add_align al (createElement ''p'')) (sect s1) of
                  None \<Rightarrow> Inl (TypeError, s1)
                | Some (t, q) \<Rightarrow> Inr (s1\<lparr>sect := t\<rparr>))))"

text \<open>T_LINK\<close>

definition link_line :: "string option \<Rightarrow> ctx \<Rightarrow> ctx result" where
  "link_line content s =
     (case append_at_dest
             (use_hint (hint s) (setAttribute ''href'' (js_string content) (createElement ''a''))) s of
        Inl e \<Rightarrow> Inl e
      | Inr (s1, q) \<Rightarrow> Inr (s1\<lparr>link := Some q, hint := clear_hint (hint s)\<rparr>))"

text \<open>T_ANCHOR\<close>

definition anchor_line :: "string option \<Rightarrow> ctx \<Rightarrow> ctx result" where
  "anchor_line content s =
     (case append_at_dest (setAttribute ''name'' (js_string content) (createElement ''a'')) s of
        Inl e \<Rightarrow> Inl e
      | Inr (s1, q) \<Rightarrow> Inr s1)"

text \<open>T_IMAGE: the \<^verbatim>\<open>img\<close> is appended first, its source is decided afterwards.\<close>

definition data_uri :: "string \<times> string \<Rightarrow> string" where
  "data_uri b = ''data:'' @ fst b @ '';base64,'' @ snd b"

definition set_image :: "path \<Rightarrow> string \<Rightarrow> ctx \<Rightarrow> ctx result" where
  "set_image q src s =
     (case update_at q (\<lambda>img. use_hint (hint s) (setAttribute ''src'' src img)) (sect s) of
        None \<Rightarrow> Inl (TypeError, s)
      | Some t \<Rightarrow> Inr (s\<lparr>sect := t, hint := clear_hint (hint s)\<rparr>))"

definition image_line :: "string option \<Rightarrow> ctx \<Rightarrow> ctx result" where
  "image_line content s =
     (case append_at_dest (createElement ''img'') s of
        Inl e \<Rightarrow> Inl e
      | Inr (s1, q) \<Rightarrow>
          if truthy content then set_image q (js_string content) s1
          else (case blob s1 of
                  None \<Rightarrow> Inl (FLTError ''No image content available'', s1)
                | Some b \<Rightarrow> set_image q (data_uri b) s1))"

text \<open>T_TABLE\<close>

definition table_line :: "nat \<Rightarrow> ctx \<Rightarrow> ctx result" where
  "table_line n s =
     (case append_to_sect (Element ''table'' [] [] (Some n) []) s of
        Inl e \<Rightarrow> Inl e
      | Inr (s1, q) \<Rightarrow> Inr s1)"

text \<open>T_DESTINATION to D_NOTE: the two anchors of footnote \<open>n\<close>.\<close>

definition to_note :: "nat \<Rightarrow> node" where
  "to_note n =
     set_textContent (dec n) (classList_add ''to-note''
       (setAttribute ''href'' (''#flt-note-'' @ dec n)
         (setAttribute ''name'' (''flt-note-return-'' @ dec n) (createElement ''a''))))"

definition from_note :: "nat \<Rightarrow> node" where
  "from_note n =
     classList_add ''from-note''
       (setAttribute ''href'' (''#flt-note-return-'' @ dec n)
         (setAttribute ''name'' (''flt-note-'' @ dec n) (createElement ''a'')))"

definition note_destination :: "ctx \<Rightarrow> ctx result" where
  "note_destination s =
     (case append_at_dest (to_note (noteIndex s)) s of
        Inl e \<Rightarrow> Inl e
      | Inr (s1, q) \<Rightarrow>
          (case append_to_sect (createElement ''aside'') s1 of
             Inl e \<Rightarrow> Inl e
           | Inr (s2, note) \<Rightarrow>
               (case appendChild note (from_note (noteIndex s)) (sect s2) of
                  None \<Rightarrow> Inl (TypeError, s2)
                | Some (t3, q3) \<Rightarrow>
                    (case appendChild note (createElement ''p'') t3 of
                       None \<Rightarrow> Inl (TypeError, s2\<lparr>sect := t3, noteIndex := Suc (noteIndex s)\<rparr>)
                     | Some (t4, q4) \<Rightarrow>
                         Inr (s2\<lparr>sect := t4, noteIndex := Suc (noteIndex s)\<rparr>)))))"

text \<open>
  T_DESTINATION to D_CELL.
  \<^verbatim>\<open>!row || !(BigInt(cellCount) % BigInt(table.fltColumns))\<close>: the remainder is only
  evaluated when the table has a row; \<^verbatim>\<open>BigInt(undefined)\<close> is a \<^verbatim>\<open>TypeError\<close>, a
  \<^verbatim>\<open>BigInt\<close> remainder by zero a \<^verbatim>\<open>RangeError\<close>.
\<close>

definition needs_row :: "path option \<Rightarrow> nat \<Rightarrow> nat option \<Rightarrow> error + bool" where
  "needs_row row cellCount cols =
     (case row of
        None \<Rightarrow> Inr True
      | Some r \<Rightarrow>
          (case cols of
             None \<Rightarrow> Inl TypeError
           | Some c \<Rightarrow> if c = 0 then Inl RangeError else Inr (cellCount mod c = 0)))"

definition cell_destination :: "bool \<Rightarrow> ctx \<Rightarrow> ctx result" where
  "cell_destination header s =
     (case querySelector_last_of_type ''table'' (sect s) of
        None \<Rightarrow> Inl (FLTError ''Cannot set destination to D_CELL when no table is defined'', s)
      | Some tp \<Rightarrow>
          (case node_at tp (sect s) of
             None \<Rightarrow> Inl (TypeError, s)
           | Some table \<Rightarrow>
               (let cellCount = length (querySelectorAll [''th'', ''td''] table);
                    row = querySelector_last_of_type ''tr'' table;
                    cell = createElement (if header then ''th'' else ''td'')
                in case needs_row row cellCount (fltColumns table) of
                     Inl e \<Rightarrow> Inl (e, s)
                   | Inr new \<Rightarrow>
                       (case (if new then appendChild tp (createElement ''tr'') (sect s)
                              else map_option (\<lambda>r. (sect s, tp @ r)) row) of
                          None \<Rightarrow> Inl (TypeError, s)
                        | Some (t1, rp) \<Rightarrow>
                            (case appendChild rp cell t1 of
                               None \<Rightarrow> Inl (TypeError, s\<lparr>sect := t1\<rparr>)
                             | Some (t2, q) \<Rightarrow> Inr (s\<lparr>sect := t2\<rparr>))))))"

text \<open>T_DESTINATION to D_HEAD: a new section, the one before it stays in the body.\<close>

definition head_destination :: "ctx \<Rightarrow> ctx" where
  "head_destination s = s\<lparr>body := body s @ [sect s], sect := createElement ''section''\<rparr>"

definition destination_line :: "destination \<Rightarrow> bool \<Rightarrow> ctx \<Rightarrow> ctx result" where
  "destination_line d header s =
     (case (case d of
              D_NOTE \<Rightarrow> note_destination (s\<lparr>link := None\<rparr>)
            | D_CELL \<Rightarrow> cell_destination header (s\<lparr>link := None\<rparr>)
            | D_HEAD \<Rightarrow> Inr (head_destination (s\<lparr>link := None\<rparr>))
            | D_BODY \<Rightarrow> Inr (s\<lparr>link := None\<rparr>)) of
        Inl e \<Rightarrow> Inl e
      | Inr s1 \<Rightarrow> Inr (s1\<lparr>dest := d\<rparr>))"

text \<open>The \<^verbatim>\<open>switch\<close> on \<^verbatim>\<open>line.lineType\<close>.\<close>

fun type_line_handler :: "type_line \<Rightarrow> ctx \<Rightarrow> ctx result" where
  "type_line_handler (T_SECTION al br) s = Inr (section_line al br s)"
| "type_line_handler (T_PARAGRAPH al) s = paragraph_line al s"
| "type_line_handler (T_HINT content) s = Inr (s\<lparr>hint := content\<rparr>)"
| "type_line_handler (T_LINK content) s = link_line content s"
| "type_line_handler (T_ANCHOR content) s = anchor_line content s"
| "type_line_handler (T_BLOB mediaType data) s = Inr (s\<lparr>blob := Some (mediaType, data)\<rparr>)"
| "type_line_handler (T_IMAGE content) s = image_line content s"
| "type_line_handler (T_TABLE n) s = table_line n s"
| "type_line_handler (T_DESTINATION d header) s = destination_line d header s"
| "type_line_handler T_OTHER s = Inr s"

section \<open>Text lines\<close>

text \<open>\<^verbatim>\<open>line.text.split(/\n/u)\<close>: the fragments between line feeds, at least one.\<close>

fun split_nl :: "string \<Rightarrow> string list" where
  "split_nl [] = [[]]"
| "split_nl (c # cs) =
     (if c = CHR 0x0A then [] # split_nl cs
      else (case split_nl cs of [] \<Rightarrow> [[c]] | f # fs \<Rightarrow> (c # f) # fs))"

text \<open>\<^verbatim>\<open>if (flag) out = out.appendChild(el)\<close>\<close>

definition wrap :: "bool \<Rightarrow> node \<Rightarrow> (node \<times> path) option \<Rightarrow> (node \<times> path) option" where
  "wrap flag el st =
     (case st of
        None \<Rightarrow> None
      | Some (t, out) \<Rightarrow> if flag then appendChild out el t else Some (t, out))"

text \<open>The \<^verbatim>\<open>span\<close> with the classes of the flags that are set.\<close>

definition style_span :: "text_line \<Rightarrow> node" where
  "style_span l =
     (if mono' l then classList_add ''monospace'' else id)
       ((if strikeout l then classList_add ''strikeout'' else id)
         ((if underline l then classList_add ''underline'' else id) (createElement ''span'')))"

text \<open>
  The \<^verbatim>\<open>do ... while\<close> loop over the fragments: a text node for each, a \<^verbatim>\<open>br\<close> between
  two. (On no fragment at all, \<^verbatim>\<open>fragments.shift()\<close> would be \<^verbatim>\<open>undefined\<close>.)
\<close>

fun do_fragments :: "path \<Rightarrow> string list \<Rightarrow> node \<Rightarrow> node option" where
  "do_fragments out [] t = map_option fst (appendChild out (Text ''undefined'') t)"
| "do_fragments out [f] t = map_option fst (appendChild out (Text f) t)"
| "do_fragments out (f # g # fs) t =
     (case appendChild out (Text f) t of
        None \<Rightarrow> None
      | Some (t1, q1) \<Rightarrow>
          (case appendChild out (createElement ''br'') t1 of
             None \<Rightarrow> None
           | Some (t2, q2) \<Rightarrow> do_fragments out (g # fs) t2))"

text \<open>
  The wrappers of one text line, appended one inside the other from \<open>out\<close>, then the
  fragments. Only the first method call on \<open>out\<close> can fail, before the tree has changed.
\<close>

definition wrappers :: "text_line \<Rightarrow> node \<Rightarrow> path \<Rightarrow> (node \<times> path) option" where
  "wrappers l t out =
     wrap (subtext l) (createElement ''sub'')
       (wrap (supertext l) (createElement ''sup'')
         (wrap (underline l \<or> strikeout l \<or> mono' l) (style_span l)
           (wrap (bold l) (createElement ''strong'')
             (wrap (italic l) (createElement ''em'') (Some (t, out))))))"

definition text_line_handler :: "text_line \<Rightarrow> ctx \<Rightarrow> ctx result" where
  "text_line_handler l s =
     (case destEl s of
        Inl e \<Rightarrow> Inl e
      | Inr (s1, out0) \<Rightarrow>
          (let out = (case link s1 of
                        None \<Rightarrow> out0
                      | Some lk \<Rightarrow> if contains_node out0 lk then lk else out0)
           in case wrappers l (sect s1) out of
                None \<Rightarrow> Inl (TypeError, s1)
              | Some (t, inner) \<Rightarrow>
                  (case do_fragments inner (split_nl (line_text l)) t of
                     None \<Rightarrow> Inl (TypeError, s1)
                   | Some t' \<Rightarrow> Inr (s1\<lparr>sect := t'\<rparr>))))"

section \<open>The render loop\<close>

fun step :: "ctx \<Rightarrow> line \<Rightarrow> ctx result" where
  "step s (TypeLine r ty) = type_line_handler ty (if r then reset s else s)"
| "step s (TextLine r l) = text_line_handler l (if r then reset s else s)"
| "step s (OtherLine r) = Inr (if r then reset s else s)"

fun run :: "ctx \<Rightarrow> line list \<Rightarrow> ctx result" where
  "run s [] = Inr s"
| "run s (l # ls) = (case step s l of Inl e \<Rightarrow> Inl e | Inr s' \<Rightarrow> run s' ls)"

section \<open>Cleanup\<close>

text \<open>
  \<^verbatim>\<open>document.querySelectorAll("section, p").forEach((el) => { if (!el.hasChildNodes())
  el.parentNode.removeChild(el); })\<close>. The list is computed once, in document order, and
  an element stands in it before each of its descendants: when an element is tested, none
  of its children has been visited, so the test sees the children it had when the pass
  started, and what goes on below an element that stays does not change that it stays.
\<close>

definition removable :: "node \<Rightarrow> bool" where
  "removable n = (matches [''section'', ''p''] n \<and> \<not> hasChildNodes n)"

fun cleanup :: "node \<Rightarrow> node" where
  "cleanup (Element t a c f ks) = Element t a c f (map cleanup (filter (\<lambda>k. \<not> removable k) ks))"
| "cleanup (Text s) = Text s"
| "cleanup (Comment s) = Comment s"

section \<open>Metadata and the document\<close>

text \<open>
  The host document (\<^verbatim>\<open>this\<close>): the feature flag, the metadata lookup, which returns the
  list of a term's values, and the lines. The caller's options with their defaults.
\<close>

record flt_document =
  DCMETA :: bool
  getDC :: "string \<Rightarrow> string list"
  doc_lines :: "line list"

record options =
  bodyOnly :: bool
  insertHeading :: bool
  bodyClass :: "string list"
  stylesheet :: "string list"

text \<open>\<^verbatim>\<open>list.join(", ")\<close>\<close>

fun join_comma :: "string list \<Rightarrow> string" where
  "join_comma [] = []"
| "join_comma [x] = x"
| "join_comma (x # y # ys) = x @ '', '' @ join_comma (y # ys)"

text \<open>\<^verbatim>\<open>!value\<close> for an array: an array is an object, which is truthy also when it is empty.\<close>

definition js_not_array :: "string list \<Rightarrow> bool" where
  "js_not_array value = False"

definition og :: "string \<Rightarrow> string \<Rightarrow> node" where
  "og term v =
     setAttribute ''content'' v (setAttribute ''property'' (''og:'' @ term) (createElement ''meta''))"

text \<open>The term table, in the order of its keys: the term, the tag's name, \<^verbatim>\<open>merge\<close>.\<close>

definition terms :: "(string \<times> string \<times> bool) list" where
  "terms =
     [(''title'', ''title'', True),
      (''description'', ''description'', True),
      (''creator'', ''article:author'', False),
      (''subject'', ''article:tag'', False),
      (''date'', ''article:published_time'', False)]"

text \<open>One round of the loop over the terms: the tags appended to the head for a term.\<close>

definition term_tags :: "flt_document \<Rightarrow> string \<times> string \<times> bool \<Rightarrow> node list" where
  "term_tags d tm =
     (case tm of (term, name, merge) \<Rightarrow>
        (let value = getDC d term in
         if js_not_array value then []
         else map (og name) (if merge then [join_comma value] else value)))"

text \<open>\<^verbatim>\<open>applyMetadata(document)\<close>: the children it appends to the head.\<close>

definition applyMetadata :: "flt_document \<Rightarrow> node list" where
  "applyMetadata d =
     (if \<not> DCMETA d then []
      else (let title = join_comma (getDC d ''title'') in
            (if title \<noteq> [] then [set_textContent title (createElement ''title'')] else [])
            @ [og ''type'' ''article'']
            @ concat (map (term_tags d) terms)))"





text \<open>The body before the loop (the heading of the title, if asked for) and the render context.\<close>

definition title_heading :: "options \<Rightarrow> flt_document \<Rightarrow> node list" where
  "title_heading opts d =
     (if insertHeading opts \<and> DCMETA d then
        (let title = join_comma (getDC d ''title'') in
         if title \<noteq> [] then
           [set_textContent title (setAttribute ''id'' ''title'' (createElement ''h1''))]
         else [])
      else [])"

definition init_ctx :: "options \<Rightarrow> flt_document \<Rightarrow> ctx" where
  "init_ctx opts d =
     \<lparr>noteIndex = 1, link = None, hint = None, blob = None,
      body = title_heading opts d, sect = createElement ''section'', dest = D_BODY\<rparr>"





section \<open>Notions used to state the properties\<close>

text \<open>The context a step ends with: the new context, or the context at the throw.\<close>

definition ctx_of :: "ctx result \<Rightarrow> ctx" where
  "ctx_of r = (case r of Inl (e, s) \<Rightarrow> s | Inr s \<Rightarrow> s)"

text \<open>Inputs for the examples: the default options, a document without metadata.\<close>

definition default_options :: options where
  "default_options = \<lparr>bodyOnly = False, insertHeading = True, bodyClass = [], stylesheet = []\<rparr>"

definition plain_document :: "line list \<Rightarrow> flt_document" where
  "plain_document ls = \<lparr>DCMETA = False, getDC = (\<lambda>term. []), doc_lines = ls\<rparr>"

definition plain_text :: "string \<Rightarrow> text_line" where
  "plain_text t =
     \<lparr>line_text = t, italic = False, bold = False, underline = False, strikeout = False,
      mono' = False, supertext = False, subtext = False\<rparr>"

text \<open>
  What a tree holds: \<open>collect w\<close> adds up \<open>w\<close> over the nodes of a tree, each node taken
  without its children.
\<close>

fun collect :: "(node \<Rightarrow> 'a multiset) \<Rightarrow> node \<Rightarrow> 'a multiset" where
  "collect w (Element t a c f ks) = w (Element t a c f []) + sum_list (map (collect w) ks)"
| "collect w (Text s) = w (Text s)"
| "collect w (Comment s) = w (Comment s)"

text \<open>The attributes of the anchors (\<^verbatim>\<open>a\<close> elements) of a tree that carry the class \<open>cl\<close>.\<close>

definition note_anchor :: "string \<Rightarrow> node \<Rightarrow> (string \<times> string) list multiset" where
  "note_anchor cl n = (if is_tag ''a'' n \<and> cl \<in> set (classList n) then {#attributes n#} else {#})"

definition anchors :: "string \<Rightarrow> node \<Rightarrow> (string \<times> string) list multiset" where
  "anchors cl = collect (note_anchor cl)"

text \<open>The contents of the text nodes of a tree.\<close>

fun text_of :: "node \<Rightarrow> string multiset" where
  "text_of (Text s) = {#s#}"
| "text_of (Element t a c f ks) = {#}"
| "text_of (Comment s) = {#}"

definition texts :: "node \<Rightarrow> string multiset" where
  "texts = collect text_of"

text \<open>Some descendant of the node matches the selector group.\<close>

definition has :: "string list \<Rightarrow> node \<Rightarrow> bool" where
  "has sel n = (querySelectorAll sel n \<noteq> [])"

text \<open>A property of every node of a tree.\<close>

fun all_nodes :: "(node \<Rightarrow> bool) \<Rightarrow> node \<Rightarrow> bool" where
  "all_nodes Q (Element t a c f ks) = (Q (Element t a c f ks) \<and> list_all (all_nodes Q) ks)"
| "all_nodes Q (Text s) = Q (Text s)"
| "all_nodes Q (Comment s) = Q (Comment s)"

text \<open>A sequence of \<^verbatim>\<open>appendChild\<close> calls, each given by the parent's address and the child.\<close>

fun apply_appends :: "(path \<times> node) list \<Rightarrow> node \<Rightarrow> node option" where
  "apply_appends [] t = Some t"
| "apply_appends ((p, c) # ops) t =
     (case appendChild p c t of None \<Rightarrow> None | Some (t1, q) \<Rightarrow> apply_appends ops t1)"

text \<open>
  The nesting of a text line in the words of the specification: a wrapper is present when
  its flag is set, in the order italic, bold, the one \<^verbatim>\<open>span\<close> with the classes of
  underline, strikeout and monospace, superscript, subscript; the fragments are innermost,
  a line break between two of them.
\<close>

definition wrapped :: "bool \<Rightarrow> string \<Rightarrow> string list \<Rightarrow> node list \<Rightarrow> node list" where
  "wrapped flag t classes kids = (if flag then [Element t [] classes None kids] else kids)"

definition span_classes :: "text_line \<Rightarrow> string list" where
  "span_classes l =
     (if underline l then [''underline''] else [])
     @ (if strikeout l then [''strikeout''] else [])
     @ (if mono' l then [''monospace''] else [])"

definition nesting :: "text_line \<Rightarrow> node list \<Rightarrow> node list" where
  "nesting l kids =
     wrapped (italic l) ''em'' []
       (wrapped (bold l) ''strong'' []
         (wrapped (underline l \<or> strikeout l \<or> mono' l) ''span'' (span_classes l)
           (wrapped (supertext l) ''sup'' []
             (wrapped (subtext l) ''sub'' [] kids))))"

fun fragment_nodes :: "string list \<Rightarrow> node list" where
  "fragment_nodes [] = []"
| "fragment_nodes [f] = [Text f]"
| "fragment_nodes (f # g # fs) = Text f # Element ''br'' [] [] None [] # fragment_nodes (g # fs)"

text \<open>
  The rows of a table in the words of the specification: the cells in rows of \<open>C\<close>, the
  last row with what is left.
\<close>

function chunks :: "nat \<Rightarrow> 'a list \<Rightarrow> 'a list list" where
  "chunks C xs = (if C = 0 \<or> xs = [] then [] else take C xs # chunks C (drop C xs))"
  by pat_completeness auto
termination
  by (relation "measure (\<lambda>(C, xs). length xs)") auto

declare chunks.simps [simp del]

definition table_cell :: "bool \<Rightarrow> node" where
  "table_cell header = Element (if header then ''th'' else ''td'') [] [] None []"

definition table_row :: "node list \<Rightarrow> node" where
  "table_row cells = Element ''tr'' [] [] None cells"

text \<open>The lines of a kind.\<close>

fun is_destination :: "line \<Rightarrow> bool" where
  "is_destination (TypeLine r (T_DESTINATION d h)) = True"
| "is_destination l = False"


text \<open>
  What holds of the current section all through a pass. It is a \<^verbatim>\<open>section\<close> element; a
  footnote container has a paragraph (\<^verbatim>\<open>destEl\<close> looks for it); every table is a child of the section (the CELL
  handler looks for the last one).
\<close>

definition note_ok :: "node \<Rightarrow> bool" where
  "note_ok n = (matches [''aside'', ''notAnElement''] n \<longrightarrow> has [''p'', ''notAnElement''] n)"

definition tables_top :: "node \<Rightarrow> bool" where
  "tables_top t = list_all (\<lambda>k. \<not> has [''table''] k) (childNodes t)"

definition sect_ok :: "node \<Rightarrow> bool" where
  "sect_ok t = (is_tag ''section'' t \<and> all_nodes note_ok t \<and> tables_top t)"

definition ctx_ok :: "ctx \<Rightarrow> bool" where
  "ctx_ok s =
     (sect_ok (sect s)
      \<and> (dest s = D_NOTE \<longrightarrow> has [''aside'', ''notAnElement''] (sect s))
      \<and> (dest s = D_CELL \<longrightarrow> has [''th'', ''td''] (sect s))
      \<and> (case link s of
            None \<Rightarrow> True
          | Some lk \<Rightarrow> (case node_at lk (sect s) of None \<Rightarrow> False | Some n \<Rightarrow> is_tag ''a'' n)))"

text \<open>
  An \<^verbatim>\<open>appendChild\<close> that keeps this: the child brings no footnote container without
  paragraph and no table below it, and a table goes to the section itself.
\<close>

definition good_op :: "path \<times> node \<Rightarrow> bool" where
  "good_op op =
     (all_nodes note_ok (snd op) \<and> \<not> has [''table''] (snd op)
      \<and> (fst op = [] \<or> \<not> matches [''table''] (snd op)))"

text \<open>An \<^verbatim>\<open>appendChild\<close> that moreover brings no footnote anchor.\<close>

definition plain_op :: "path \<times> node \<Rightarrow> bool" where
  "plain_op op =
     (good_op op \<and> anchors ''to-note'' (snd op) = {#} \<and> anchors ''from-note'' (snd op) = {#})"

text \<open>One tree comes from another by such calls.\<close>

definition grows :: "node \<Rightarrow> node \<Rightarrow> bool" where
  "grows t t' = (\<exists>ops. apply_appends ops t = Some t' \<and> list_all plain_op ops)"



text \<open>Appending a list of nodes, in order, to the element at an address.\<close>

definition append_children :: "path \<Rightarrow> node list \<Rightarrow> node \<Rightarrow> node option" where
  "append_children p nodes t = apply_appends (map (Pair p) nodes) t"

text \<open>
  The insertion point of a text line: the open link when it lies in the destination
  element, else the destination element.
\<close>

definition insertion_point :: "path option \<Rightarrow> path \<Rightarrow> path" where
  "insertion_point lk out0 =
     (case lk of None \<Rightarrow> out0 | Some l \<Rightarrow> if contains_node out0 l then l else out0)"


text \<open>A table with its declared column count, its rows given by the header flags of their cells.\<close>

definition table_of :: "nat \<Rightarrow> bool list list \<Rightarrow> node" where
  "table_of C hss =
     Element ''table'' [] [] (Some C) (map (\<lambda>hs. table_row (map table_cell hs)) hss)"

text \<open>A DESTINATION line to CELL, given by its \<^verbatim>\<open>reset\<close> and \<^verbatim>\<open>header\<close> flags.\<close>

definition cell_line :: "bool \<times> bool \<Rightarrow> line" where
  "cell_line rh = TypeLine (fst rh) (T_DESTINATION D_CELL (snd rh))"


text \<open>
  The lines of a pass around its last SECTION line: those after it (all lines, if there
  is none) and those up to it. The fragments of the text lines of a list of lines. The
  alignment of the last SECTION line (none, if there is no SECTION line).
\<close>

fun is_section :: "line \<Rightarrow> bool" where
  "is_section (TypeLine r (T_SECTION al br)) = True"
| "is_section l = False"

definition since_section :: "line list \<Rightarrow> line list" where
  "since_section ls = rev (takeWhile (\<lambda>l. \<not> is_section l) (rev ls))"

definition until_section :: "line list \<Rightarrow> line list" where
  "until_section ls = rev (dropWhile (\<lambda>l. \<not> is_section l) (rev ls))"

fun line_fragments :: "line \<Rightarrow> string multiset" where
  "line_fragments (TextLine r l) = mset (split_nl (line_text l))"
| "line_fragments l = {#}"

definition text_fragments :: "line list \<Rightarrow> string multiset" where
  "text_fragments ls = sum_list (map line_fragments ls)"

fun section_align :: "align \<Rightarrow> line \<Rightarrow> align" where
  "section_align a (TypeLine r (T_SECTION al br)) = al"
| "section_align a l = a"

definition last_align :: "line list \<Rightarrow> align" where
  "last_align ls = foldl section_align ALIGN_NONE ls"

text \<open>
  More kinds of lines: TABLE and SECTION lines; the \<^verbatim>\<open>header\<close> flag of a CELL directive, and
  the flags of the CELL directives of a list of lines; CELL directives and text lines.
\<close>

fun table_or_section :: "line \<Rightarrow> bool" where
  "table_or_section (TypeLine r (T_TABLE n)) = True"
| "table_or_section (TypeLine r (T_SECTION al br)) = True"
| "table_or_section l = False"

fun cell_header :: "line \<Rightarrow> bool option" where
  "cell_header (TypeLine r (T_DESTINATION D_CELL h)) = Some h"
| "cell_header l = None"

definition cell_headers :: "line list \<Rightarrow> bool list" where
  "cell_headers ls = List.map_filter cell_header ls"

fun cell_or_text :: "line \<Rightarrow> bool" where
  "cell_or_text (TypeLine r (T_DESTINATION D_CELL h)) = True"
| "cell_or_text (TextLine r l) = True"
| "cell_or_text l = False"

text \<open>The tag of a cell.\<close>

definition cell_tag :: "bool \<Rightarrow> string" where
  "cell_tag header = (if header then ''th'' else ''td'')"

text \<open>
  The table that a TABLE line appends in the context \<open>s\<close>, as it stands in a later context
  \<open>s'\<close>. Without a SECTION line in between, the body and the section only grow at the end,
  so the table keeps its place: it is the child of index \<open>length (childNodes (sect s))\<close> of
  the node of index \<open>length (body s)\<close> of the body (whose children are \<open>body s'\<close> and
  then the current section).
\<close>

definition declared_table :: "ctx \<Rightarrow> ctx \<Rightarrow> node option" where
  "declared_table s s' =
     (if length (body s) \<le> length (body s')
      then node_at [length (childNodes (sect s))] ((body s' @ [sect s']) ! length (body s))
      else None)"

text \<open>
  What the handlers other than those of TABLE, SECTION and CELL do to the section: they
  append children that are and hold no table, row or cell, to elements other than tables
  and rows.
\<close>

definition no_table_parts :: "node \<Rightarrow> bool" where
  "no_table_parts c =
     (\<not> matches [''table'', ''tr'', ''th'', ''td''] c \<and> \<not> has [''table'', ''tr'', ''th'', ''td''] c)"

inductive fills :: "node \<Rightarrow> node \<Rightarrow> bool" where
  fills_refl: "fills t t"
| fills_step: "fills t t1 \<Longrightarrow> node_at p t1 = Some n \<Longrightarrow> \<not> matches [''table'', ''tr''] n \<Longrightarrow>
     no_table_parts c \<Longrightarrow> appendChild p c t1 = Some (t2, q) \<Longrightarrow> fills t t2"

text \<open>
  A table with its rows given by the header flags of their cells, whatever the cells hold
  (no table, row or cell); such a table as the last table among the children of a section.
\<close>

definition cell_shape :: "node \<Rightarrow> bool \<Rightarrow> bool" where
  "cell_shape c h = (is_tag (cell_tag h) c \<and> \<not> has [''table'', ''tr'', ''th'', ''td''] c)"

definition row_shape :: "node \<Rightarrow> bool list \<Rightarrow> bool" where
  "row_shape r hs = (is_tag ''tr'' r \<and> list_all2 cell_shape (childNodes r) hs)"

definition table_shape :: "nat \<Rightarrow> bool list list \<Rightarrow> node \<Rightarrow> bool" where
  "table_shape C hss tb =
     (is_tag ''table'' tb \<and> fltColumns tb = Some C \<and> list_all2 row_shape (childNodes tb) hss)"

definition last_table :: "nat \<Rightarrow> nat \<Rightarrow> bool list list \<Rightarrow> node \<Rightarrow> bool" where
  "last_table i C hss t =
     (i < length (childNodes t) \<and> table_shape C hss (childNodes t ! i)
      \<and> (\<forall>j < length (childNodes t). i < j \<longrightarrow> \<not> is_tag ''table'' (childNodes t ! j)))"

text \<open>The row that the CELL handler puts the next cell in: a new one, or the last one.\<close>

definition add_cell :: "nat \<Rightarrow> bool list list \<Rightarrow> bool \<Rightarrow> bool list list" where
  "add_cell C hss h =
     (if hss = [] \<or> length (concat hss) mod C = 0 then hss @ [[h]]
      else butlast hss @ [last hss @ [h]])"

text \<open>
  The table stays where it is: it is the last table of the current section, or a
  DESTINATION to HEAD has moved on to a new section, which has no table.
\<close>

definition table_kept :: "nat \<Rightarrow> nat \<Rightarrow> nat \<Rightarrow> bool list list \<Rightarrow> ctx \<Rightarrow> bool" where
  "table_kept B i C hss s =
     ((length (body s) = B \<and> last_table i C hss (sect s))
      \<or> (B < length (body s) \<and> last_table i C hss (body s ! B) \<and> \<not> has [''table''] (sect s)))"

text \<open>
  The lines that leave a table the last one of the current section and add no cell to it:
  all but TABLE and SECTION lines and DESTINATION lines to CELL or HEAD.
\<close>

fun keeps_table :: "line \<Rightarrow> bool" where
  "keeps_table (TypeLine r (T_TABLE n)) = False"
| "keeps_table (TypeLine r (T_SECTION al br)) = False"
| "keeps_table (TypeLine r (T_DESTINATION D_CELL h)) = False"
| "keeps_table (TypeLine r (T_DESTINATION D_HEAD h)) = False"
| "keeps_table l = True"

section \<open>Addresses and appended children\<close>

lemma node_at_append:
  "node_at (p @ q) t = (case node_at p t of None \<Rightarrow> None | Some n \<Rightarrow> node_at q n)"
  by (induction p arbitrary: t) auto

lemma appendChild_path:
  "appendChild p c t = Some (t', q) \<Longrightarrow>
   \<exists>n. node_at p t = Some n \<and> tagName n \<noteq> None \<and> q = p @ [length (childNodes n)]"
proof (induction p arbitrary: t t' q)
  case Nil
  then show ?case by (cases t) auto
next
  case (Cons i p)
  then show ?case by (cases t) (auto split: if_splits option.splits)
qed

lemma appendChild_succeeds:
  "node_at p t = Some n \<Longrightarrow> tagName n \<noteq> None \<Longrightarrow>
   \<exists>t'. appendChild p c t = Some (t', p @ [length (childNodes n)])"
proof (induction p arbitrary: t)
  case Nil
  then show ?case by (cases t) auto
next
  case (Cons i p)
  then show ?case by (cases t) (fastforce split: if_splits)+
qed

lemma appendChild_new: "appendChild p c t = Some (t', q) \<Longrightarrow> node_at q t' = Some c"
proof (induction p arbitrary: t t' q)
  case Nil
  then show ?case by (cases t) auto
next
  case (Cons i p)
  then show ?case by (cases t) (auto split: if_splits option.splits)
qed

lemma appendChild_tagName: "appendChild p c t = Some (t', q) \<Longrightarrow> tagName t' = tagName t"
  by (cases p; cases t) (auto split: if_splits option.splits)

text \<open>
  Appending an element and then filling it through its address gives the tree that
  appending the filled element gives.
\<close>

lemma appendChild_then_append:
  "appendChild p c t = Some (t1, q) \<Longrightarrow> appendChild r x c = Some (c', r') \<Longrightarrow>
   \<exists>t2. appendChild (q @ r) x t1 = Some (t2, q @ r') \<and> appendChild p c' t = Some (t2, q)"
proof (induction p arbitrary: t t1 q)
  case Nil
  then show ?case by (cases t) (auto simp: nth_append)
next
  case (Cons i p)
  then show ?case
    by (cases t) (fastforce split: if_splits option.splits)+
qed

lemma appendChild_then_update:
  "appendChild p c t = Some (t1, q) \<Longrightarrow>
   \<exists>t2. update_at q g t1 = Some t2 \<and> appendChild p (g c) t = Some (t2, q)"
proof (induction p arbitrary: t t1 q)
  case Nil
  then show ?case by (cases t) (auto simp: nth_append)
next
  case (Cons i p)
  then show ?case
    by (cases t) (fastforce split: if_splits option.splits)+
qed

section \<open>Query results are addresses of matching elements\<close>

lemma qsa_from_sound:
  "(\<And>k p. k \<in> set ks \<Longrightarrow> p \<in> set (querySelectorAll sel k) \<Longrightarrow>
      \<exists>n. node_at p k = Some n \<and> matches sel n)
   \<Longrightarrow> p \<in> set (qsa_from sel i ks) \<Longrightarrow>
   \<exists>j r n. p = (i + j) # r \<and> j < length ks \<and> node_at r (ks ! j) = Some n \<and> matches sel n"
proof (induction ks arbitrary: i)
  case Nil
  then show ?case by simp
next
  case (Cons k ks)
  from Cons.prems(2) consider
    (here) "p = [i]" "matches sel k"
    | (below) r where "p = i # r" "r \<in> set (querySelectorAll sel k)"
    | (later) "p \<in> set (qsa_from sel (Suc i) ks)"
    by (auto split: if_splits)
  then show ?case
  proof cases
    case here
    then show ?thesis by (intro exI[of _ 0] exI[of _ "[]"] exI[of _ k]) simp
  next
    case below
    with Cons.prems(1)[of k r] obtain n where "node_at r k = Some n" "matches sel n" by auto
    with below show ?thesis by (intro exI[of _ 0] exI[of _ r] exI[of _ n]) simp
  next
    case later
    from Cons.IH[OF _ later] Cons.prems(1)
    obtain j r n where
      "p = (Suc i + j) # r" "j < length ks" "node_at r (ks ! j) = Some n" "matches sel n"
      by (metis list.set_intros(2))
    then show ?thesis by (intro exI[of _ "Suc j"] exI[of _ r] exI[of _ n]) simp
  qed
qed

lemma qsa_sound:
  "p \<in> set (querySelectorAll sel t) \<Longrightarrow> \<exists>n. node_at p t = Some n \<and> matches sel n"
proof (induction t arbitrary: p)
  case (Element tg a c f ks)
  have "\<exists>j r n. p = (0 + j) # r \<and> j < length ks \<and> node_at r (ks ! j) = Some n \<and> matches sel n"
    by (rule qsa_from_sound[where sel = sel]) (use Element in auto)
  then show ?case by auto
qed auto

lemma matches_tagName: "matches sel n \<Longrightarrow> tagName n \<noteq> None"
  by (auto simp: matches_def split: option.splits)

lemma last_of_Some: "last_of xs = Some x \<Longrightarrow> x \<in> set xs"
  by (auto simp: last_of_def split: if_splits)

lemma lastElementChild_Some:
  "lastElementChild ks = Some i \<Longrightarrow> i < length ks \<and> tagName (ks ! i) \<noteq> None"
  by (induction ks arbitrary: i) (auto split: option.splits if_splits)

section \<open>The destination element is an element of the section\<close>

lemma append_to_sect_valid:
  "append_to_sect c s = Inr (s1, p) \<Longrightarrow> node_at p (sect s1) = Some c"
  by (cases "sect s") (auto simp: append_to_sect_def)

lemma last_child_or_new_valid:
  "last_child_or_new tg s = Inr (s1, p) \<Longrightarrow> \<exists>n. node_at p (sect s1) = Some n \<and> is_tag tg n"
  by (auto simp: last_child_or_new_def createElement_def is_tag_def
      split: option.splits if_splits dest!: append_to_sect_valid lastElementChild_Some)

lemma destEl_NOTE:
  "dest s = D_NOTE \<Longrightarrow> destEl s = Inr (s1, p) \<Longrightarrow>
   s1 = s \<and> (\<exists>np nt pp. last_of (querySelectorAll [''aside'', ''notAnElement''] (sect s)) = Some np
     \<and> node_at np (sect s) = Some nt
     \<and> last_of (querySelectorAll [''p'', ''notAnElement''] nt) = Some pp \<and> p = np @ pp)"
  by (simp add: destEl_def split: option.splits)

lemma destEl_CELL:
  "dest s = D_CELL \<Longrightarrow> destEl s = Inr (s1, p) \<Longrightarrow>
   s1 = s \<and> (\<exists>cp cell. last_of (querySelectorAll [''th'', ''td''] (sect s)) = Some cp
     \<and> node_at cp (sect s) = Some cell
     \<and> p = cp @ (case last_of (querySelectorAll [''aside'', ''p''] cell) of
                   None \<Rightarrow> [] | Some cont \<Rightarrow> cont))"
  by (auto simp: destEl_def split: option.splits)

lemma destEl_valid:
  assumes "destEl s = Inr (s1, p)"
  shows "\<exists>n. node_at p (sect s1) = Some n \<and> tagName n \<noteq> None"
proof (cases "dest s")
  case D_BODY
  with assms show ?thesis
    by (auto simp: destEl_def is_tag_def dest!: last_child_or_new_valid)
next
  case D_NOTE
  from destEl_NOTE[OF this assms] obtain np nt pp where
    np: "last_of (querySelectorAll [''aside'', ''notAnElement''] (sect s)) = Some np"
    and nt: "node_at np (sect s) = Some nt"
    and pp: "last_of (querySelectorAll [''p'', ''notAnElement''] nt) = Some pp"
    and eq: "s1 = s" "p = np @ pp"
    by blast
  from qsa_sound[OF last_of_Some[OF pp]] obtain n where
    "node_at pp nt = Some n" "tagName n \<noteq> None"
    using matches_tagName by blast
  with nt eq show ?thesis by (simp add: node_at_append)
next
  case D_CELL
  from destEl_CELL[OF this assms] obtain cp cell where
    cp: "last_of (querySelectorAll [''th'', ''td''] (sect s)) = Some cp"
    and cell: "node_at cp (sect s) = Some cell"
    and res: "p = cp @ (case last_of (querySelectorAll [''aside'', ''p''] cell) of
                          None \<Rightarrow> [] | Some cont \<Rightarrow> cont)"
    and eq: "s1 = s"
    by blast
  from qsa_sound[OF last_of_Some[OF cp]] cell have ct: "tagName cell \<noteq> None"
    using matches_tagName by fastforce
  show ?thesis
  proof (cases "last_of (querySelectorAll [''aside'', ''p''] cell)")
    case None
    with cell ct eq res show ?thesis by simp
  next
    case (Some cont)
    from qsa_sound[OF last_of_Some[OF Some]] obtain n where
      "node_at cont cell = Some n" "tagName n \<noteq> None"
      using matches_tagName by blast
    with cell Some res eq show ?thesis by (simp add: node_at_append)
  qed
next
  case D_HEAD
  with assms show ?thesis
    by (auto simp: destEl_def is_tag_def dest!: last_child_or_new_valid)
qed

section \<open>What a call leaves as it is\<close>

lemma destEl_frame:
  "destEl s = Inr (s1, p) \<Longrightarrow>
   noteIndex s1 = noteIndex s \<and> link s1 = link s \<and> hint s1 = hint s \<and> blob s1 = blob s
   \<and> body s1 = body s \<and> dest s1 = dest s"
  by (auto simp: destEl_def last_child_or_new_def append_to_sect_def
      split: destination.splits option.splits if_splits prod.splits)

lemma destEl_Inl: "destEl s = Inl (e, s1) \<Longrightarrow> s1 = s \<and> e = TypeError"
  by (auto simp: destEl_def last_child_or_new_def append_to_sect_def
      split: destination.splits option.splits if_splits prod.splits)

lemma append_to_sect_frame:
  "append_to_sect c s = Inr (s1, p) \<Longrightarrow>
   noteIndex s1 = noteIndex s \<and> link s1 = link s \<and> hint s1 = hint s \<and> blob s1 = blob s
   \<and> body s1 = body s \<and> dest s1 = dest s"
  by (auto simp: append_to_sect_def split: option.splits)

lemma append_to_sect_Inl: "append_to_sect c s = Inl (e, s1) \<Longrightarrow> s1 = s \<and> e = TypeError"
  by (auto simp: append_to_sect_def split: option.splits)

lemma append_at_dest_frame:
  "append_at_dest c s = Inr (s1, p) \<Longrightarrow>
   noteIndex s1 = noteIndex s \<and> link s1 = link s \<and> hint s1 = hint s \<and> blob s1 = blob s
   \<and> body s1 = body s \<and> dest s1 = dest s"
  by (auto simp: append_at_dest_def split: sum.splits option.splits prod.splits
      dest!: destEl_frame)

lemma append_at_dest_Inl:
  "append_at_dest c s = Inl (e, s1) \<Longrightarrow>
   e = TypeError \<and> noteIndex s1 = noteIndex s \<and> link s1 = link s \<and> hint s1 = hint s
   \<and> blob s1 = blob s \<and> body s1 = body s \<and> dest s1 = dest s"
  by (auto simp: append_at_dest_def split: sum.splits option.splits prod.splits
      dest!: destEl_frame destEl_Inl)

lemma append_at_dest_Inr:
  assumes d: "destEl s = Inr (s1, p)"
  shows "\<exists>t q. appendChild p c (sect s1) = Some (t, q)
     \<and> append_at_dest c s = Inr (s1\<lparr>sect := t\<rparr>, q)
     \<and> node_at q (sect s1) = None \<and> node_at q t = Some c"
proof -
  from destEl_valid[OF d] obtain n where
    n: "node_at p (sect s1) = Some n" "tagName n \<noteq> None" by blast
  from appendChild_succeeds[OF n, of c] obtain t where
    t: "appendChild p c (sect s1) = Some (t, p @ [length (childNodes n)])" by blast
  have "node_at (p @ [length (childNodes n)]) (sect s1) = None"
    using n by (simp add: node_at_append)
  moreover have "node_at (p @ [length (childNodes n)]) t = Some c"
    using appendChild_new[OF t] by simp
  ultimately show ?thesis using t d by (auto simp: append_at_dest_def)
qed

section \<open>What a tree holds, and how an appended child changes it\<close>

lemma sum_list_map_update:
  fixes f :: "'b \<Rightarrow> 'a multiset"
  shows "i < length ks \<Longrightarrow> sum_list (map f (ks[i := x])) + f (ks ! i) = sum_list (map f ks) + f x"
proof (induction ks arbitrary: i)
  case Nil
  then show ?case by simp
next
  case (Cons k ks)
  then show ?case by (cases i) (auto simp: ac_simps)
qed

lemma collect_shallow: "collect w (Element t a c f []) = w (Element t a c f [])"
  by simp

lemma collect_appendChild:
  "appendChild p c t = Some (t', q) \<Longrightarrow> collect w t' = collect w t + collect w c"
proof (induction p arbitrary: t t' q)
  case Nil
  then show ?case by (cases t) auto
next
  case (Cons i p)
  show ?case
  proof (cases t)
    case (Element tg a cl f ks)
    with Cons.prems obtain k' q' where
      i: "i < length ks" and k: "appendChild p c (ks ! i) = Some (k', q')"
      and t': "t' = Element tg a cl f (ks[i := k'])"
      by (auto split: if_splits option.splits)
    from Cons.IH[OF k] have "collect w k' = collect w (ks ! i) + collect w c" .
    with sum_list_map_update[OF i, of "collect w" k']
    have "sum_list (map (collect w) (ks[i := k'])) = sum_list (map (collect w) ks) + collect w c"
      by (simp add: ac_simps)
    with Element t' show ?thesis by simp
  qed (use Cons.prems in auto)
qed

lemma collect_apply_appends:
  "apply_appends ops t = Some t' \<Longrightarrow>
   collect w t' = collect w t + sum_list (map (\<lambda>op. collect w (snd op)) ops)"
proof (induction ops arbitrary: t)
  case Nil
  then show ?case by simp
next
  case (Cons op ops)
  obtain p c where op: "op = (p, c)" by (cases op)
  with Cons.prems obtain t1 q where
    a: "appendChild p c t = Some (t1, q)" and r: "apply_appends ops t1 = Some t'"
    by (auto split: option.splits)
  from Cons.IH[OF r] collect_appendChild[OF a, of w] op show ?case by (simp add: ac_simps)
qed

lemma qsa_from_empty:
  "qsa_from sel i ks = [] \<longleftrightarrow> (\<forall>k \<in> set ks. \<not> matches sel k \<and> querySelectorAll sel k = [])"
  by (induction ks arbitrary: i) auto

lemma has_Element:
  "has sel (Element t a c f ks) \<longleftrightarrow> (\<exists>k \<in> set ks. matches sel k \<or> has sel k)"
  by (auto simp: has_def qsa_from_empty)

lemma has_leaf [simp]: "\<not> has sel (Element t a c f [])" "\<not> has sel (Text s)" "\<not> has sel (Comment s)"
  by (simp_all add: has_def)

lemma matches_appendChild:
  "appendChild p c t = Some (t', q) \<Longrightarrow> matches sel t' = matches sel t"
  by (simp add: matches_def appendChild_tagName)

lemma has_appendChild:
  "appendChild p c t = Some (t', q) \<Longrightarrow> has sel t' \<longleftrightarrow> has sel t \<or> matches sel c \<or> has sel c"
proof (induction p arbitrary: t t' q)
  case Nil
  then show ?case by (cases t) (auto simp: has_Element)
next
  case (Cons i p)
  show ?case
  proof (cases t)
    case (Element tg a cl f ks)
    with Cons.prems obtain k' q' where
      i: "i < length ks" and k: "appendChild p c (ks ! i) = Some (k', q')"
      and t': "t' = Element tg a cl f (ks[i := k'])"
      by (auto split: if_splits option.splits)
    let ?P = "\<lambda>k. matches sel k \<or> has sel k"
    from Cons.IH[OF k] matches_appendChild[OF k, of sel]
    have k': "?P k' \<longleftrightarrow> ?P (ks ! i) \<or> matches sel c \<or> has sel c" by auto
    have "(\<exists>k \<in> set (ks[i := k']). ?P k) \<longleftrightarrow> (\<exists>k \<in> set ks. ?P k) \<or> ?P k'"
    proof
      assume "\<exists>k \<in> set (ks[i := k']). ?P k"
      then obtain j where "j < length ks" "?P (ks[i := k'] ! j)"
        by (auto simp: in_set_conv_nth)
      then show "(\<exists>k \<in> set ks. ?P k) \<or> ?P k'"
        by (cases "j = i") (auto simp: nth_list_update)
    next
      assume r: "(\<exists>k \<in> set ks. ?P k) \<or> ?P k'"
      show "\<exists>k \<in> set (ks[i := k']). ?P k"
      proof (cases "?P k'")
        case True
        with i show ?thesis by (metis set_update_memI)
      next
        case False
        with r obtain j where j: "j < length ks" "?P (ks ! j)" by (auto simp: in_set_conv_nth)
        with False k' have "j \<noteq> i" by auto
        with j i have "?P (ks[i := k'] ! j)" by simp
        with j show ?thesis by (metis length_list_update nth_mem)
      qed
    qed
    with k' i Element t' show ?thesis by (auto simp: has_Element)
  qed (use Cons.prems in auto)
qed

section \<open>What an appended child keeps\<close>

lemma all_nodes_root: "all_nodes Q t \<Longrightarrow> Q t"
  by (cases t) auto

lemma all_nodes_node_at: "all_nodes Q t \<Longrightarrow> node_at p t = Some n \<Longrightarrow> Q n"
proof (induction p arbitrary: t)
  case Nil
  then show ?case by (simp add: all_nodes_root)
next
  case (Cons i p)
  then show ?case by (cases t) (auto simp: list_all_length split: if_splits)
qed

lemma note_ok_appendChild:
  "appendChild p c t = Some (t', q) \<Longrightarrow> note_ok t \<Longrightarrow> note_ok t'"
  by (simp add: note_ok_def has_appendChild matches_appendChild)

lemma list_all_update: "list_all P ks \<Longrightarrow> P x \<Longrightarrow> list_all P (ks[i := x])"
  by (induction ks arbitrary: i) (auto split: nat.splits)

lemma all_nodes_appendChild:
  "appendChild p c t = Some (t', q) \<Longrightarrow> all_nodes note_ok t \<Longrightarrow> all_nodes note_ok c \<Longrightarrow>
   all_nodes note_ok t'"
proof (induction p arbitrary: t t' q)
  case Nil
  from Nil.prems(1) note_ok_appendChild[OF Nil.prems(1)] Nil.prems(2,3)
  show ?case by (cases t) auto
next
  case (Cons i p)
  show ?case
  proof (cases t)
    case (Element tg a cl f ks)
    with Cons.prems(1) obtain k' q' where
      i: "i < length ks" and k: "appendChild p c (ks ! i) = Some (k', q')"
      and t': "t' = Element tg a cl f (ks[i := k'])"
      by (auto split: if_splits option.splits)
    from Cons.prems(2) Element i have "all_nodes note_ok (ks ! i)" "list_all (all_nodes note_ok) ks"
      by (auto simp: list_all_length)
    with Cons.IH[OF k _ Cons.prems(3)] have "list_all (all_nodes note_ok) (ks[i := k'])"
      by (simp add: list_all_update)
    moreover from note_ok_appendChild[OF Cons.prems(1)] Cons.prems(2) have "note_ok t'"
      by (simp add: all_nodes_root)
    ultimately show ?thesis using t' by simp
  qed (use Cons.prems in auto)
qed

lemma tables_top_appendChild:
  assumes a: "appendChild p c t = Some (t', q)" and t: "tables_top t"
    and c: "\<not> has [''table''] c" and top: "p = [] \<or> \<not> matches [''table''] c"
  shows "tables_top t'"
proof (cases p)
  case Nil
  with a t c show ?thesis by (cases t) (auto simp: tables_top_def)
next
  case (Cons i p')
  show ?thesis
  proof (cases t)
    case (Element tg a' cl f ks)
    with a Cons obtain k' q' where
      i: "i < length ks" and k: "appendChild p' c (ks ! i) = Some (k', q')"
      and t': "t' = Element tg a' cl f (ks[i := k'])"
      by (auto split: if_splits option.splits)
    from t Element i have "\<not> has [''table''] (ks ! i)" by (simp add: tables_top_def list_all_length)
    with has_appendChild[OF k] c top Cons have "\<not> has [''table''] k'" by simp
    with t Element t' show ?thesis by (simp add: tables_top_def list_all_update)
  qed (use a Cons in auto)
qed

lemma sect_ok_appendChild:
  "appendChild p c t = Some (t', q) \<Longrightarrow> good_op (p, c) \<Longrightarrow> sect_ok t \<Longrightarrow> sect_ok t'"
  by (auto simp: sect_ok_def good_op_def is_tag_def appendChild_tagName
      intro: all_nodes_appendChild tables_top_appendChild)

lemma node_at_appendChild:
  "appendChild p c t = Some (t', q) \<Longrightarrow> node_at r t = Some n \<Longrightarrow>
   \<exists>n'. node_at r t' = Some n' \<and> tagName n' = tagName n"
proof (induction p arbitrary: t t' q r)
  case Nil
  then show ?case
    by (cases t; cases r) (auto simp: nth_append split: if_splits)
next
  case (Cons i p)
  show ?case
  proof (cases t)
    case (Element tg a cl f ks)
    with Cons.prems(1) obtain k' q' where
      i: "i < length ks" and k: "appendChild p c (ks ! i) = Some (k', q')"
      and t': "t' = Element tg a cl f (ks[i := k'])"
      by (auto split: if_splits option.splits)
    show ?thesis
    proof (cases r)
      case Nil
      with Cons.prems(2) Element t' show ?thesis by auto
    next
      case (Cons j r')
      with Cons.prems(2) Element have j: "j < length ks" "node_at r' (ks ! j) = Some n"
        by (auto split: if_splits)
      show ?thesis
      proof (cases "j = i")
        case True
        with Cons.IH[OF k] j Cons t' i show ?thesis by simp
      next
        case False
        with j Cons t' show ?thesis by simp
      qed
    qed
  qed (use Cons.prems in auto)
qed

section \<open>Sequences of appended children\<close>

lemma apply_appends_append:
  "apply_appends (ops1 @ ops2) t =
     (case apply_appends ops1 t of None \<Rightarrow> None | Some t1 \<Rightarrow> apply_appends ops2 t1)"
  by (induction ops1 arbitrary: t) (auto split: option.splits)

lemma apply_appends_snoc:
  "apply_appends ops t = Some t1 \<Longrightarrow> appendChild p c t1 = Some (t2, q) \<Longrightarrow>
   apply_appends (ops @ [(p, c)]) t = Some t2"
  by (simp add: apply_appends_append)

lemma plain_leaf:
  "t \<notin> {''aside'', ''notAnElement'', ''table'', ''a''} \<Longrightarrow> plain_op (p, Element t a c f [])"
  by (auto simp: plain_op_def good_op_def note_ok_def matches_def anchors_def note_anchor_def is_tag_def)

lemma plain_text: "plain_op (p, Text x)"
  by (auto simp: plain_op_def good_op_def note_ok_def matches_def anchors_def note_anchor_def is_tag_def)

lemma plain_anchor: "plain_op (p, Element ''a'' a [] f [])"
  by (auto simp: plain_op_def good_op_def note_ok_def matches_def anchors_def note_anchor_def is_tag_def)

lemma plain_table: "plain_op ([], Element ''table'' a c f [])"
  by (auto simp: plain_op_def good_op_def note_ok_def matches_def anchors_def note_anchor_def is_tag_def)

lemma append_to_sect_InrE:
  "append_to_sect c s = Inr (s1, q) \<Longrightarrow>
   appendChild [] c (sect s) = Some (sect s1, q) \<and> s1 = s\<lparr>sect := sect s1\<rparr>"
  by (auto simp: append_to_sect_def split: option.splits)

lemma last_child_or_new_trace:
  "last_child_or_new tg s = Inr (s1, p) \<Longrightarrow>
   s1 = s\<lparr>sect := sect s1\<rparr> \<and>
   (sect s1 = sect s \<or> (\<exists>q. appendChild [] (createElement tg) (sect s) = Some (sect s1, q)))"
  by (auto simp: last_child_or_new_def split: option.splits if_splits dest!: append_to_sect_InrE)

lemma destEl_trace:
  assumes "destEl s = Inr (s1, p)"
  shows "s1 = s\<lparr>sect := sect s1\<rparr> \<and>
    (\<exists>ops. apply_appends ops (sect s) = Some (sect s1) \<and> list_all plain_op ops
       \<and> set (map snd ops) \<subseteq> {createElement ''p'', createElement ''h2''})"
proof -
  have *: "s1 = s\<lparr>sect := sect s1\<rparr> \<and>
     (sect s1 = sect s \<or> (\<exists>tg q. tg \<in> {''p'', ''h2''} \<and> appendChild [] (createElement tg) (sect s) = Some (sect s1, q)))"
    using assms
    by (cases "dest s")
      (auto simp: destEl_def split: option.splits dest!: last_child_or_new_trace)
  then show ?thesis
  proof (elim conjE disjE exE)
    assume "sect s1 = sect s" "s1 = s\<lparr>sect := sect s1\<rparr>"
    then show ?thesis by (intro conjI exI[of _ "[]"]) auto
  next
    fix tg q assume h: "tg \<in> {''p'', ''h2''}" "appendChild [] (createElement tg) (sect s) = Some (sect s1, q)"
      and e: "s1 = s\<lparr>sect := sect s1\<rparr>"
    from h have "apply_appends [([], createElement tg)] (sect s) = Some (sect s1)" by simp
    moreover from h(1) have "plain_op ([], createElement tg)"
      by (auto simp: createElement_def intro!: plain_leaf)
    ultimately show ?thesis using e h(1) by (intro conjI exI[of _ "[([], createElement tg)]"]) auto
  qed
qed

lemma append_at_dest_InrE:
  "append_at_dest c s = Inr (s1, q) \<Longrightarrow>
   \<exists>s0 p. destEl s = Inr (s0, p) \<and> appendChild p c (sect s0) = Some (sect s1, q)
     \<and> s1 = s0\<lparr>sect := sect s1\<rparr>"
  by (auto simp: append_at_dest_def split: sum.splits option.splits prod.splits)

lemma grows_refl: "grows t t"
  unfolding grows_def by (rule exI[of _ "[]"]) simp

lemma grows_trans: "grows t t1 \<Longrightarrow> grows t1 t2 \<Longrightarrow> grows t t2"
  unfolding grows_def
proof (elim exE conjE)
  fix ops1 ops2
  assume "apply_appends ops1 t = Some t1" "list_all plain_op ops1"
    "apply_appends ops2 t1 = Some t2" "list_all plain_op ops2"
  then show "\<exists>ops. apply_appends ops t = Some t2 \<and> list_all plain_op ops"
    by (intro exI[of _ "ops1 @ ops2"]) (simp add: apply_appends_append)
qed

lemma grows_appendChild: "appendChild p c t = Some (t', q) \<Longrightarrow> plain_op (p, c) \<Longrightarrow> grows t t'"
  unfolding grows_def by (rule exI[of _ "[(p, c)]"]) simp

lemma destEl_grows: "destEl s = Inr (s1, p) \<Longrightarrow> grows (sect s) (sect s1)"
  using destEl_trace[of s s1 p] by (auto simp: grows_def)

lemma destEl_ctx: "destEl s = Inr (s1, p) \<Longrightarrow> s1 = s\<lparr>sect := sect s1\<rparr>"
  using destEl_trace[of s s1 p] by blast

section \<open>What growth keeps\<close>

lemma plain_good: "plain_op op \<Longrightarrow> good_op op"
  by (simp add: plain_op_def)

lemma apply_appends_sect_ok:
  "apply_appends ops t = Some t' \<Longrightarrow> list_all good_op ops \<Longrightarrow> sect_ok t \<Longrightarrow> sect_ok t'"
proof (induction ops arbitrary: t)
  case Nil
  then show ?case by simp
next
  case (Cons op ops)
  obtain p c where op: "op = (p, c)" by (cases op)
  with Cons.prems obtain t1 q where
    a: "appendChild p c t = Some (t1, q)" and r: "apply_appends ops t1 = Some t'"
    by (auto split: option.splits)
  from sect_ok_appendChild[OF a] Cons.prems op have "sect_ok t1" by simp
  with Cons.IH[OF r] Cons.prems show ?case by simp
qed

lemma apply_appends_has:
  "apply_appends ops t = Some t' \<Longrightarrow> has sel t \<Longrightarrow> has sel t'"
proof (induction ops arbitrary: t)
  case Nil
  then show ?case by simp
next
  case (Cons op ops)
  obtain p c where op: "op = (p, c)" by (cases op)
  with Cons.prems obtain t1 q where
    a: "appendChild p c t = Some (t1, q)" and r: "apply_appends ops t1 = Some t'"
    by (auto split: option.splits)
  from has_appendChild[OF a] Cons.prems have "has sel t1" by simp
  with Cons.IH[OF r] show ?case by simp
qed

lemma apply_appends_node_at:
  "apply_appends ops t = Some t' \<Longrightarrow> node_at r t = Some n \<Longrightarrow>
   \<exists>n'. node_at r t' = Some n' \<and> tagName n' = tagName n"
proof (induction ops arbitrary: t n)
  case Nil
  then show ?case by simp
next
  case (Cons op ops)
  obtain p c where op: "op = (p, c)" by (cases op)
  with Cons.prems obtain t1 q where
    a: "appendChild p c t = Some (t1, q)" and r: "apply_appends ops t1 = Some t'"
    by (auto split: option.splits)
  from node_at_appendChild[OF a Cons.prems(2)] obtain n1 where
    "node_at r t1 = Some n1" "tagName n1 = tagName n" by blast
  with Cons.IH[OF r, of n1] show ?case by auto
qed

lemma grows_sect_ok: "grows t t' \<Longrightarrow> sect_ok t \<Longrightarrow> sect_ok t'"
  unfolding grows_def by (metis apply_appends_sect_ok list.pred_mono_strong plain_good)

lemma grows_has: "grows t t' \<Longrightarrow> has sel t \<Longrightarrow> has sel t'"
  unfolding grows_def using apply_appends_has by blast

lemma grows_node_at:
  "grows t t' \<Longrightarrow> node_at r t = Some n \<Longrightarrow> \<exists>n'. node_at r t' = Some n' \<and> tagName n' = tagName n"
  unfolding grows_def using apply_appends_node_at by blast


lemma link_ok_grows:
  assumes "grows t t'"
    and "case lk of None \<Rightarrow> True | Some l \<Rightarrow> (case node_at l t of None \<Rightarrow> False | Some n \<Rightarrow> is_tag ''a'' n)"
  shows "case lk of None \<Rightarrow> True | Some l \<Rightarrow> (case node_at l t' of None \<Rightarrow> False | Some n \<Rightarrow> is_tag ''a'' n)"
proof (cases lk)
  case None
  then show ?thesis by simp
next
  case (Some l)
  with assms(2) obtain n where "node_at l t = Some n" "is_tag ''a'' n"
    by (auto split: option.splits)
  with grows_node_at[OF assms(1), of l n] Some show ?thesis by (auto simp: is_tag_def)
qed

lemma ctx_ok_grows:
  assumes "ctx_ok s" "grows (sect s) (sect s')" "dest s' = dest s"
    "link s' = link s \<or> link s' = None"
  shows "ctx_ok s'"
proof -
  from assms(1) have l: "case link s of None \<Rightarrow> True | Some l \<Rightarrow> (case node_at l (sect s) of None \<Rightarrow> False | Some n \<Rightarrow> is_tag ''a'' n)"
    by (simp add: ctx_ok_def)
  from link_ok_grows[OF assms(2) l] assms(4)
  have "case link s' of None \<Rightarrow> True | Some l \<Rightarrow> (case node_at l (sect s') of None \<Rightarrow> False | Some n \<Rightarrow> is_tag ''a'' n)"
    by auto
  with assms(1,3) grows_sect_ok[OF assms(2)] grows_has[OF assms(2)]
  show ?thesis by (auto simp: ctx_ok_def)
qed

section \<open>The handlers only append: text lines\<close>

lemma style_span_eq: "style_span l = Element ''span'' [] (span_classes l) None []"
  by (simp add: style_span_def span_classes_def createElement_def)

lemma wrap_grows:
  assumes "wrap flag el st = Some (t', out')" "\<And>p. plain_op (p, el)"
  shows "\<exists>t out. st = Some (t, out) \<and> grows t t'"
proof (cases st)
  case None
  with assms(1) show ?thesis by (simp add: wrap_def)
next
  case (Some r)
  obtain t out where r: "r = (t, out)" by (cases r)
  show ?thesis
  proof (cases flag)
    case True
    with assms(1) Some r have "appendChild out el t = Some (t', out')" by (simp add: wrap_def)
    from grows_appendChild[OF this assms(2)] Some r show ?thesis by simp
  next
    case False
    with assms(1) Some r show ?thesis by (simp add: wrap_def grows_refl)
  qed
qed

lemma wrappers_grows:
  assumes "wrappers l t out = Some (t', inner)"
  shows "grows t t'"
proof -
  have pl: "\<And>p tg. tg \<in> {''em'', ''strong'', ''sup'', ''sub''} \<Longrightarrow> plain_op (p, createElement tg)"
    by (auto simp: createElement_def intro!: plain_leaf)
  have sp: "\<And>p. plain_op (p, style_span l)"
    by (auto simp: style_span_eq intro!: plain_leaf)
  from assms obtain t4 o4 where
    s4: "wrap (supertext l) (createElement ''sup'')
         (wrap (underline l \<or> strikeout l \<or> mono' l) (style_span l)
           (wrap (bold l) (createElement ''strong'')
             (wrap (italic l) (createElement ''em'') (Some (t, out))))) = Some (t4, o4)"
    and g5: "grows t4 t'"
    unfolding wrappers_def using wrap_grows[OF _ pl] by (metis insertI1 insertI2)
  from s4 obtain t3 o3 where
    s3: "wrap (underline l \<or> strikeout l \<or> mono' l) (style_span l)
           (wrap (bold l) (createElement ''strong'')
             (wrap (italic l) (createElement ''em'') (Some (t, out)))) = Some (t3, o3)"
    and g4: "grows t3 t4"
    using wrap_grows[OF _ pl] by (metis insertI1 insertI2)
  from s3 obtain t2 o2 where
    s2: "wrap (bold l) (createElement ''strong'')
             (wrap (italic l) (createElement ''em'') (Some (t, out))) = Some (t2, o2)"
    and g3: "grows t2 t3"
    using wrap_grows[OF _ sp] by metis
  from s2 obtain t1 o1 where
    s1: "wrap (italic l) (createElement ''em'') (Some (t, out)) = Some (t1, o1)"
    and g2: "grows t1 t2"
    using wrap_grows[OF _ pl] by (metis insertI1 insertI2)
  from s1 have g1: "grows t t1"
    using wrap_grows[OF _ pl] by (metis insertI1 option.inject prod.inject)
  from g1 g2 g3 g4 g5 show ?thesis by (blast intro: grows_trans)
qed

lemma do_fragments_grows: "do_fragments out fs t = Some t' \<Longrightarrow> grows t t'"
proof (induction out fs t rule: do_fragments.induct)
  case (1 out t)
  then show ?case by (auto intro: grows_appendChild plain_text)
next
  case (2 out f t)
  then show ?case by (auto intro: grows_appendChild plain_text)
next
  case (3 out f g fs t)
  from "3.prems" obtain t1 q1 t2 q2 where
    a1: "appendChild out (Text f) t = Some (t1, q1)"
    and a2: "appendChild out (createElement ''br'') t1 = Some (t2, q2)"
    and r: "do_fragments out (g # fs) t2 = Some t'"
    by (auto split: option.splits)
  have "plain_op (out, createElement ''br'')" by (auto simp: createElement_def intro!: plain_leaf)
  from grows_appendChild[OF a1 plain_text] grows_appendChild[OF a2 this] "3.IH"[OF a1 _ a2 _ r]
  show ?case by (auto intro: grows_trans)
qed

lemma text_line_grows:
  assumes "text_line_handler l s = Inr s'"
  shows "grows (sect s) (sect s') \<and> noteIndex s' = noteIndex s \<and> link s' = link s
    \<and> hint s' = hint s \<and> blob s' = blob s \<and> body s' = body s \<and> dest s' = dest s"
proof -
  from assms obtain s1 out0 out t inner t' where
    d: "destEl s = Inr (s1, out0)"
    and w: "wrappers l (sect s1) out = Some (t, inner)"
    and f: "do_fragments inner (split_nl (line_text l)) t = Some t'"
    and e: "s' = s1\<lparr>sect := t'\<rparr>"
    by (auto simp: text_line_handler_def Let_def split: sum.splits option.splits prod.splits)
  from destEl_grows[OF d] wrappers_grows[OF w] do_fragments_grows[OF f] e
  have "grows (sect s) (sect s')" by (auto intro: grows_trans)
  with destEl_frame[OF d] e show ?thesis by simp
qed

section \<open>The handlers only append: typed lines\<close>

lemma append_at_dest_grows:
  assumes a: "append_at_dest c s = Inr (s1, q)" and pl: "\<And>p. plain_op (p, c)"
  shows "grows (sect s) (sect s1) \<and> node_at q (sect s1) = Some c"
proof -
  from append_at_dest_InrE[OF a] obtain s0 p where
    d: "destEl s = Inr (s0, p)" and ap: "appendChild p c (sect s0) = Some (sect s1, q)"
    by blast
  from destEl_grows[OF d] grows_appendChild[OF ap pl] have "grows (sect s) (sect s1)"
    by (rule grows_trans)
  with appendChild_new[OF ap] show ?thesis by simp
qed

lemma paragraph_grows:
  assumes "paragraph_line al s = Inr s'"
  shows "grows (sect s) (sect s') \<and> noteIndex s' = noteIndex s \<and> link s' = None
    \<and> hint s' = hint s \<and> blob s' = blob s \<and> body s' = body s \<and> dest s' = dest s"
proof -
  from assms obtain s1 p cont t q where
    d: "destEl (s\<lparr>link := None\<rparr>) = Inr (s1, p)"
    and a: "appendChild cont (add_align al (createElement ''p'')) (sect s1) = Some (t, q)"
    and e: "s' = s1\<lparr>sect := t\<rparr>"
    by (auto simp: paragraph_line_def split: sum.splits option.splits prod.splits)
  have "plain_op (cont, add_align al (createElement ''p''))"
    by (cases al) (auto simp: add_align_def createElement_def intro!: plain_leaf)
  from destEl_grows[OF d] grows_appendChild[OF a this] e
  have "grows (sect s) (sect s')" by (auto intro: grows_trans)
  with destEl_frame[OF d] e show ?thesis by simp
qed

lemma link_el_plain:
  "plain_op (p, use_hint h (setAttribute k v (createElement ''a'')))"
  by (auto simp: use_hint_def createElement_def intro!: plain_anchor)

lemma link_grows:
  assumes "link_line c s = Inr s'"
  shows "grows (sect s) (sect s') \<and> noteIndex s' = noteIndex s
    \<and> (\<exists>q n. link s' = Some q \<and> node_at q (sect s') = Some n \<and> is_tag ''a'' n)
    \<and> blob s' = blob s \<and> body s' = body s \<and> dest s' = dest s"
proof -
  let ?a = "use_hint (hint s) (setAttribute ''href'' (js_string c) (createElement ''a''))"
  from assms obtain s1 q where
    a: "append_at_dest ?a s = Inr (s1, q)"
    and e: "s' = s1\<lparr>link := Some q, hint := clear_hint (hint s)\<rparr>"
    by (auto simp: link_line_def split: sum.splits prod.splits)
  have "is_tag ''a'' ?a" by (simp add: use_hint_def createElement_def is_tag_def)
  with append_at_dest_grows[OF a link_el_plain] append_at_dest_frame[OF a] e
  show ?thesis by auto
qed

lemma anchor_grows:
  assumes "anchor_line c s = Inr s'"
  shows "grows (sect s) (sect s') \<and> noteIndex s' = noteIndex s \<and> link s' = link s
    \<and> hint s' = hint s \<and> blob s' = blob s \<and> body s' = body s \<and> dest s' = dest s"
proof -
  let ?a = "setAttribute ''name'' (js_string c) (createElement ''a'')"
  from assms obtain q where a: "append_at_dest ?a s = Inr (s', q)"
    by (auto simp: anchor_line_def split: sum.splits prod.splits)
  have "\<And>p. plain_op (p, ?a)" by (auto simp: createElement_def intro!: plain_anchor)
  from append_at_dest_grows[OF a this] append_at_dest_frame[OF a] show ?thesis by simp
qed

lemma set_image_grows:
  assumes a: "appendChild p (createElement ''img'') t0 = Some (sect s1, q)"
    and si: "set_image q src s1 = Inr s'"
  shows "grows t0 (sect s') \<and> noteIndex s' = noteIndex s1 \<and> link s' = link s1
    \<and> blob s' = blob s1 \<and> body s' = body s1 \<and> dest s' = dest s1"
proof -
  let ?g = "\<lambda>img. use_hint (hint s1) (setAttribute ''src'' src img)"
  from appendChild_then_update[OF a, of ?g] obtain t2 where
    u: "update_at q ?g (sect s1) = Some t2"
    and a2: "appendChild p (?g (createElement ''img'')) t0 = Some (t2, q)" by blast
  from si u have e: "s' = s1\<lparr>sect := t2, hint := clear_hint (hint s1)\<rparr>"
    by (simp add: set_image_def)
  have "plain_op (p, ?g (createElement ''img''))"
    by (auto simp: use_hint_def createElement_def intro!: plain_leaf)
  from grows_appendChild[OF a2 this] e show ?thesis by simp
qed

lemma image_grows:
  assumes "image_line c s = Inr s'"
  shows "grows (sect s) (sect s') \<and> noteIndex s' = noteIndex s \<and> link s' = link s
    \<and> blob s' = blob s \<and> body s' = body s \<and> dest s' = dest s"
proof -
  from assms obtain s1 q src where
    a: "append_at_dest (createElement ''img'') s = Inr (s1, q)"
    and si: "set_image q src s1 = Inr s'"
    by (auto simp: image_line_def split: sum.splits prod.splits if_splits option.splits)
  from append_at_dest_InrE[OF a] obtain s0 p where
    d: "destEl s = Inr (s0, p)"
    and ap: "appendChild p (createElement ''img'') (sect s0) = Some (sect s1, q)"
    by blast
  from set_image_grows[OF ap si] destEl_grows[OF d] append_at_dest_frame[OF a]
  show ?thesis by (auto intro: grows_trans)
qed

lemma table_grows:
  assumes "table_line n s = Inr s'"
  shows "grows (sect s) (sect s') \<and> noteIndex s' = noteIndex s \<and> link s' = link s
    \<and> hint s' = hint s \<and> blob s' = blob s \<and> body s' = body s \<and> dest s' = dest s"
proof -
  from assms obtain q where a: "append_to_sect (Element ''table'' [] [] (Some n) []) s = Inr (s', q)"
    by (auto simp: table_line_def split: sum.splits prod.splits)
  from append_to_sect_InrE[OF a] have "appendChild [] (Element ''table'' [] [] (Some n) []) (sect s) = Some (sect s', q)"
    by simp
  from grows_appendChild[OF this plain_table] append_to_sect_frame[OF a] show ?thesis by simp
qed

lemma note_destination_trace:
  assumes "note_destination s = Inr s'"
  shows "\<exists>t0 p t1 q1 q2. grows (sect s) t0
    \<and> appendChild p (to_note (noteIndex s)) t0 = Some (t1, q1)
    \<and> appendChild [] (Element ''aside'' [] [] None [from_note (noteIndex s), createElement ''p''])
          t1 = Some (sect s', q2)
    \<and> noteIndex s' = Suc (noteIndex s) \<and> link s' = link s \<and> hint s' = hint s
    \<and> blob s' = blob s \<and> body s' = body s \<and> dest s' = dest s"
proof -
  let ?n = "noteIndex s"
  from assms obtain s1 q1 s2 np t3 q3 t4 q4 where
    a1: "append_at_dest (to_note ?n) s = Inr (s1, q1)"
    and a2: "append_to_sect (createElement ''aside'') s1 = Inr (s2, np)"
    and a3: "appendChild np (from_note ?n) (sect s2) = Some (t3, q3)"
    and a4: "appendChild np (createElement ''p'') t3 = Some (t4, q4)"
    and e: "s' = s2\<lparr>sect := t4, noteIndex := Suc ?n\<rparr>"
    by (auto simp: note_destination_def split: sum.splits prod.splits option.splits)
  from append_at_dest_InrE[OF a1] obtain s0 p where
    d: "destEl s = Inr (s0, p)"
    and ap: "appendChild p (to_note ?n) (sect s0) = Some (sect s1, q1)" by blast
  from append_to_sect_InrE[OF a2] have
    b: "appendChild [] (createElement ''aside'') (sect s1) = Some (sect s2, np)" by simp
  have c1: "appendChild [] (from_note ?n) (createElement ''aside'')
      = Some (Element ''aside'' [] [] None [from_note ?n], [0])"
    by (simp add: createElement_def)
  from appendChild_then_append[OF b c1] a3 have
    b2: "appendChild [] (Element ''aside'' [] [] None [from_note ?n]) (sect s1) = Some (t3, np)"
    by simp
  have c2: "appendChild [] (createElement ''p'') (Element ''aside'' [] [] None [from_note ?n])
      = Some (Element ''aside'' [] [] None [from_note ?n, createElement ''p''], [1])"
    by simp
  from appendChild_then_append[OF b2 c2] a4 have
    b3: "appendChild [] (Element ''aside'' [] [] None [from_note ?n, createElement ''p'']) (sect s1)
       = Some (t4, np)"
    by simp
  from destEl_grows[OF d] ap b3 e append_at_dest_frame[OF a1] append_to_sect_frame[OF a2]
  show ?thesis by (intro exI[of _ "sect s0"] exI[of _ p] exI[of _ "sect s1"] exI[of _ q1] exI[of _ np]) simp
qed

lemma cell_destination_grows:
  assumes "cell_destination h s = Inr s'"
  shows "grows (sect s) (sect s') \<and> has [''th'', ''td''] (sect s')
    \<and> noteIndex s' = noteIndex s \<and> link s' = link s \<and> hint s' = hint s
    \<and> blob s' = blob s \<and> body s' = body s \<and> dest s' = dest s"
proof -
  let ?cell = "createElement (if h then ''th'' else ''td'')"
  from assms obtain tp tbl new t1 rp t2 q where
    tp: "querySelector_last_of_type ''table'' (sect s) = Some tp"
    and r: "(if new then appendChild tp (createElement ''tr'') (sect s)
            else map_option (\<lambda>r. (sect s, tp @ r)) (querySelector_last_of_type ''tr'' tbl)) = Some (t1, rp)"
    and a: "appendChild rp ?cell t1 = Some (t2, q)"
    and e: "s' = s\<lparr>sect := t2\<rparr>"
    by (auto simp: cell_destination_def Let_def split: sum.splits prod.splits option.splits)
  have m: "matches [''th'', ''td''] ?cell" by (simp add: matches_def createElement_def)
  have pc: "\<And>p. plain_op (p, ?cell)" by (auto simp: createElement_def intro!: plain_leaf)
  have "grows (sect s) t2"
  proof (cases new)
    case True
    with r have b: "appendChild tp (createElement ''tr'') (sect s) = Some (t1, rp)" by simp
    have c: "appendChild [] ?cell (createElement ''tr'') = Some (Element ''tr'' [] [] None [?cell], [0])"
      by (simp add: createElement_def)
    from appendChild_then_append[OF b c] a have
      b2: "appendChild tp (Element ''tr'' [] [] None [?cell]) (sect s) = Some (t2, rp)" by simp
    have "plain_op (tp, Element ''tr'' [] [] None [?cell])"
      by (auto simp: plain_op_def good_op_def note_ok_def matches_def anchors_def note_anchor_def
          is_tag_def has_Element createElement_def)
    from grows_appendChild[OF b2 this] show ?thesis .
  next
    case False
    with r have "t1 = sect s" by auto
    with a grows_appendChild[OF _ pc] show ?thesis by simp
  qed
  moreover from has_appendChild[OF a] m have "has [''th'', ''td''] t2" by simp
  ultimately show ?thesis using e by simp
qed

section \<open>What holds all through a pass\<close>

lemma to_note_good: "good_op (p, to_note n)"
  by (auto simp: good_op_def to_note_def createElement_def note_ok_def matches_def has_Element)

lemma aside_good:
  "good_op ([], Element ''aside'' [] [] None [from_note n, createElement ''p''])"
  by (auto simp: good_op_def from_note_def createElement_def note_ok_def matches_def has_Element)

lemma ctx_ok_reset: "ctx_ok s \<Longrightarrow> ctx_ok (if r then reset s else s)"
  by (simp add: ctx_ok_def reset_def)

lemma ctx_ok_unlink: "ctx_ok s \<Longrightarrow> ctx_ok (s\<lparr>link := None\<rparr>)"
  by (simp add: ctx_ok_def)

lemma sect_ok_fresh: "sect_ok (add_align al (createElement ''section''))"
  by (cases al)
    (auto simp: sect_ok_def add_align_def createElement_def note_ok_def matches_def tables_top_def
      is_tag_def)

lemma ctx_ok_section: "ctx_ok (section_line al br s)"
  using sect_ok_fresh[of al] by (simp add: ctx_ok_def section_line_def Let_def)

lemma ctx_ok_note:
  assumes ok: "ctx_ok s" and n: "note_destination (s\<lparr>link := None\<rparr>) = Inr s1"
  shows "ctx_ok (s1\<lparr>dest := D_NOTE\<rparr>)"
proof -
  let ?n = "noteIndex s"
  from note_destination_trace[OF n] obtain t0 p t1 q1 q2 where
    g: "grows (sect s) t0"
    and a1: "appendChild p (to_note ?n) t0 = Some (t1, q1)"
    and a2: "appendChild [] (Element ''aside'' [] [] None [from_note ?n, createElement ''p'']) t1
        = Some (sect s1, q2)"
    and l: "link s1 = None"
    by auto
  from ok have "sect_ok (sect s)" by (simp add: ctx_ok_def)
  with grows_sect_ok[OF g] have "sect_ok t0" by simp
  with sect_ok_appendChild[OF a1 to_note_good] have "sect_ok t1" by simp
  with sect_ok_appendChild[OF a2 aside_good] have "sect_ok (sect s1)" by simp
  moreover from has_appendChild[OF a2, of "[''aside'', ''notAnElement'']"]
  have "has [''aside'', ''notAnElement''] (sect s1)" by (simp add: matches_def)
  ultimately show ?thesis using l by (simp add: ctx_ok_def)
qed

lemma ctx_ok_cell:
  assumes ok: "ctx_ok s" and c: "cell_destination h (s\<lparr>link := None\<rparr>) = Inr s1"
  shows "ctx_ok (s1\<lparr>dest := D_CELL\<rparr>)"
proof -
  from cell_destination_grows[OF c] have
    g: "grows (sect s) (sect s1)" and hs: "has [''th'', ''td''] (sect s1)" and l: "link s1 = None"
    by auto
  from ok have "sect_ok (sect s)" by (simp add: ctx_ok_def)
  with grows_sect_ok[OF g] hs l show ?thesis by (simp add: ctx_ok_def)
qed

lemma ctx_ok_destination:
  assumes ok: "ctx_ok s" and d: "destination_line d h s = Inr s'"
  shows "ctx_ok s'"
proof (cases d)
  case D_BODY
  with d ok show ?thesis by (auto simp: destination_line_def ctx_ok_def)
next
  case D_NOTE
  with d obtain s1 where "note_destination (s\<lparr>link := None\<rparr>) = Inr s1" "s' = s1\<lparr>dest := D_NOTE\<rparr>"
    by (auto simp: destination_line_def split: sum.splits)
  with ctx_ok_note[OF ok] show ?thesis by simp
next
  case D_CELL
  with d obtain s1 where "cell_destination h (s\<lparr>link := None\<rparr>) = Inr s1" "s' = s1\<lparr>dest := D_CELL\<rparr>"
    by (auto simp: destination_line_def split: sum.splits)
  with ctx_ok_cell[OF ok] show ?thesis by simp
next
  case D_HEAD
  with d have "s' = (head_destination (s\<lparr>link := None\<rparr>))\<lparr>dest := D_HEAD\<rparr>"
    by (auto simp: destination_line_def)
  with sect_ok_fresh[of ALIGN_NONE] show ?thesis
    by (simp add: ctx_ok_def head_destination_def add_align_def)
qed

lemma ctx_ok_link:
  assumes ok: "ctx_ok s" and l: "link_line c s = Inr s'"
  shows "ctx_ok s'"
proof -
  from link_grows[OF l] obtain q n where
    g: "grows (sect s) (sect s')" and lk: "link s' = Some q" "node_at q (sect s') = Some n" "is_tag ''a'' n"
    and d: "dest s' = dest s" by auto
  from ok grows_sect_ok[OF g] grows_has[OF g] d lk show ?thesis by (auto simp: ctx_ok_def)
qed

lemma ctx_ok_type_line:
  assumes ok: "ctx_ok s" and t: "type_line_handler ty s = Inr s'"
  shows "ctx_ok s'"
proof (cases ty)
  case (T_SECTION al br)
  with t show ?thesis using ctx_ok_section by auto
next
  case (T_PARAGRAPH al)
  with t paragraph_grows[of al s s'] ctx_ok_grows[OF ok, of s'] show ?thesis by auto
next
  case (T_HINT c)
  with t ctx_ok_grows[OF ok, of s'] show ?thesis by (auto simp: grows_refl)
next
  case (T_LINK c)
  with t ctx_ok_link[OF ok] show ?thesis by auto
next
  case (T_ANCHOR c)
  with t anchor_grows[of c s s'] ctx_ok_grows[OF ok, of s'] show ?thesis by auto
next
  case (T_BLOB m dt)
  with t ctx_ok_grows[OF ok, of s'] show ?thesis by (auto simp: grows_refl)
next
  case (T_IMAGE c)
  with t image_grows[of c s s'] ctx_ok_grows[OF ok, of s'] show ?thesis by auto
next
  case (T_TABLE n)
  with t table_grows[of n s s'] ctx_ok_grows[OF ok, of s'] show ?thesis by auto
next
  case (T_DESTINATION d h)
  with t ctx_ok_destination[OF ok] show ?thesis by auto
next
  case T_OTHER
  with t ok show ?thesis by auto
qed

lemma ctx_ok_step: "ctx_ok s \<Longrightarrow> step s l = Inr s' \<Longrightarrow> ctx_ok s'"
proof (cases l)
  case (TypeLine r ty)
  assume "ctx_ok s" "step s l = Inr s'"
  with TypeLine ctx_ok_type_line[OF ctx_ok_reset, of s ty r s'] show ?thesis by simp
next
  case (TextLine r tx)
  assume "ctx_ok s" "step s l = Inr s'"
  with TextLine text_line_grows[of tx "if r then reset s else s" s']
    ctx_ok_grows[OF ctx_ok_reset, of s r s'] show ?thesis by simp
next
  case (OtherLine r)
  assume "ctx_ok s" "step s l = Inr s'"
  with OtherLine ctx_ok_reset[of s r] show ?thesis by auto
qed

lemma ctx_ok_run: "ctx_ok s \<Longrightarrow> run s ls = Inr s' \<Longrightarrow> ctx_ok s'"
proof (induction ls arbitrary: s)
  case Nil
  then show ?case by simp
next
  case (Cons l ls)
  then show ?case by (auto split: sum.splits dest: ctx_ok_step)
qed

lemma ctx_ok_init: "ctx_ok (init_ctx opts d)"
  using sect_ok_fresh[of ALIGN_NONE] by (simp add: ctx_ok_def init_ctx_def add_align_def)

lemma reachable_ok: "run (init_ctx opts d) ls = Inr s \<Longrightarrow> ctx_ok s"
  using ctx_ok_run[OF ctx_ok_init] .

section \<open>The destination element exists all through a pass\<close>

lemma last_of_has: "has sel t \<Longrightarrow> \<exists>p. last_of (querySelectorAll sel t) = Some p"
  by (simp add: has_def last_of_def)

lemma last_child_or_new_succeeds:
  "tagName (sect s) \<noteq> None \<Longrightarrow> \<exists>s1 p. last_child_or_new tg s = Inr (s1, p)"
  by (cases "sect s")
    (auto simp: last_child_or_new_def append_to_sect_def split: option.splits)

lemma destEl_succeeds:
  assumes ok: "ctx_ok s"
  shows "\<exists>s1 p. destEl s = Inr (s1, p)"
proof (cases "dest s")
  case D_BODY
  with ok last_child_or_new_succeeds[of s "''p''"] show ?thesis
    by (simp add: destEl_def ctx_ok_def sect_ok_def is_tag_def)
next
  case D_NOTE
  with ok have "has [''aside'', ''notAnElement''] (sect s)" by (simp add: ctx_ok_def)
  from last_of_has[OF this] obtain np where
    np: "last_of (querySelectorAll [''aside'', ''notAnElement''] (sect s)) = Some np" by blast
  from qsa_sound[OF last_of_Some[OF np]] obtain nt where
    nt: "node_at np (sect s) = Some nt" "matches [''aside'', ''notAnElement''] nt" by blast
  from ok have "all_nodes note_ok (sect s)" by (simp add: ctx_ok_def sect_ok_def)
  from all_nodes_node_at[OF this nt(1)] nt(2) have "has [''p'', ''notAnElement''] nt"
    by (simp add: note_ok_def)
  from last_of_has[OF this] obtain pp where
    "last_of (querySelectorAll [''p'', ''notAnElement''] nt) = Some pp" by blast
  with D_NOTE np nt show ?thesis by (simp add: destEl_def)
next
  case D_CELL
  with ok have "has [''th'', ''td''] (sect s)" by (simp add: ctx_ok_def)
  from last_of_has[OF this] obtain cp where
    cp: "last_of (querySelectorAll [''th'', ''td''] (sect s)) = Some cp" by blast
  from qsa_sound[OF last_of_Some[OF cp]] obtain cell where
    "node_at cp (sect s) = Some cell" by blast
  with D_CELL cp show ?thesis by (simp add: destEl_def split: option.splits)
next
  case D_HEAD
  with ok last_child_or_new_succeeds[of s "''h2''"] show ?thesis
    by (simp add: destEl_def ctx_ok_def sect_ok_def is_tag_def)
qed

lemma run_snoc:
  "run s (ls @ [l]) = (case run s ls of Inl e \<Rightarrow> Inl e | Inr s1 \<Rightarrow> step s1 l)"
  by (induction ls arbitrary: s) (auto split: sum.splits)

lemma run_append:
  "run s (ls @ ls') = (case run s ls of Inl e \<Rightarrow> Inl e | Inr s1 \<Rightarrow> run s1 ls')"
  by (induction ls arbitrary: s) (auto split: sum.splits)

section \<open>The pending blob\<close>

lemma paragraph_blob: "blob (ctx_of (paragraph_line al s)) = blob s"
  by (auto simp: paragraph_line_def ctx_of_def split: sum.splits option.splits prod.splits
      dest!: destEl_frame destEl_Inl)

lemma link_blob: "blob (ctx_of (link_line c s)) = blob s"
  by (auto simp: link_line_def ctx_of_def split: sum.splits option.splits prod.splits
      dest!: append_at_dest_frame append_at_dest_Inl)

lemma anchor_blob: "blob (ctx_of (anchor_line c s)) = blob s"
  by (auto simp: anchor_line_def ctx_of_def split: sum.splits option.splits prod.splits
      dest!: append_at_dest_frame append_at_dest_Inl)

lemma image_blob: "blob (ctx_of (image_line c s)) = blob s"
  by (auto simp: image_line_def set_image_def ctx_of_def
      split: sum.splits option.splits prod.splits if_splits
      dest!: append_at_dest_frame append_at_dest_Inl)

lemma table_blob: "blob (ctx_of (table_line n s)) = blob s"
  by (auto simp: table_line_def ctx_of_def split: sum.splits option.splits prod.splits
      dest!: append_to_sect_frame append_to_sect_Inl)

lemma note_blob: "blob (ctx_of (note_destination s)) = blob s"
  by (auto simp: note_destination_def ctx_of_def split: sum.splits option.splits prod.splits
      dest!: append_at_dest_frame append_at_dest_Inl append_to_sect_frame append_to_sect_Inl)

lemma cell_blob: "blob (ctx_of (cell_destination h s)) = blob s"
  by (auto simp: cell_destination_def ctx_of_def Let_def
      split: sum.splits option.splits prod.splits if_splits)

lemma destination_blob: "blob (ctx_of (destination_line d h s)) = blob s"
  using note_blob[of "s\<lparr>link := None\<rparr>"] cell_blob[of h "s\<lparr>link := None\<rparr>"]
  by (cases d)
    (auto simp: destination_line_def head_destination_def ctx_of_def split: sum.splits prod.splits)

lemma text_blob: "blob (ctx_of (text_line_handler l s)) = blob s"
  by (auto simp: text_line_handler_def ctx_of_def Let_def
      split: sum.splits option.splits prod.splits dest!: destEl_frame destEl_Inl)

lemma type_line_blob:
  "blob (ctx_of (type_line_handler ty s)) =
     (case ty of T_BLOB m dt \<Rightarrow> Some (m, dt) | _ \<Rightarrow> blob s)"
  by (cases ty)
    (simp_all add: paragraph_blob link_blob anchor_blob image_blob table_blob destination_blob,
      simp_all add: ctx_of_def section_line_def Let_def)

text \<open>
  C2, as amended. The pending blob is not single-use. Whatever the line and whether the
  step succeeds or throws, the \<open>blob\<close> field after the step is the payload of the line if
  the line is a BLOB line, and what it was before the step otherwise: no handler clears
  it, the IMAGE handler that reads it included. A later IMAGE line without inline content
  reuses the payload until a BLOB line replaces it.
\<close>

theorem blob_persists:
  "blob (ctx_of (step s l)) =
     (case l of TypeLine r (T_BLOB m dt) \<Rightarrow> Some (m, dt) | _ \<Rightarrow> blob s)"
proof (cases l)
  case (TypeLine r ty)
  then show ?thesis
    using type_line_blob[of ty "if r then reset s else s"]
    by (cases r) (simp_all add: reset_def split: type_line.splits)
next
  case (TextLine r tx)
  then show ?thesis
    using text_blob[of tx "if r then reset s else s"] by (cases r) (simp_all add: reset_def)
next
  case (OtherLine r)
  then show ?thesis by (simp add: ctx_of_def reset_def)
qed

text \<open>An IMAGE line without inline content, with a blob pending: the blob is still pending.\<close>

theorem blob_persists_witness:
  "blob (ctx_of (step
       ((init_ctx default_options (plain_document []))\<lparr>blob := Some (''image/png'', ''AAAA'')\<rparr>)
       (TypeLine False (T_IMAGE None)))) = Some (''image/png'', ''AAAA'')"
  using blob_persists[of
      "(init_ctx default_options (plain_document []))\<lparr>blob := Some (''image/png'', ''AAAA'')\<rparr>"
      "TypeLine False (T_IMAGE None)"]
  by simp

text \<open>
  C2 as stated fails: after BLOB and an IMAGE line that consumes the blob, the blob field
  is not cleared, and a second IMAGE line without inline content, with no BLOB line in
  between, gets the same data URI.
\<close>

theorem blob_reused_counterexample:
  "blob (ctx_of (run (init_ctx default_options (plain_document []))
       [TypeLine False (T_BLOB ''image/png'' ''AAAA''), TypeLine False (T_IMAGE None)]))
     = Some (''image/png'', ''AAAA'')
   \<and> sect (ctx_of (run (init_ctx default_options (plain_document []))
       [TypeLine False (T_BLOB ''image/png'' ''AAAA''), TypeLine False (T_IMAGE None),
        TypeLine False (T_IMAGE None)]))
     = Element ''section'' [] [] None
         [Element ''p'' [] [] None
           [Element ''img'' [(''src'', ''data:image/png;base64,AAAA'')] [] None [],
            Element ''img'' [(''src'', ''data:image/png;base64,AAAA'')] [] None []]]"
  by code_simp

section \<open>Metadata\<close>

text \<open>
  C4 fails on the code for the merge terms. With metadata enabled and every lookup
  returning the empty list, \<^verbatim>\<open>applyMetadata\<close> still emits a tag for \<open>title\<close> and one for
  \<open>description\<close>, with empty content: the guard \<^verbatim>\<open>if (!value) continue\<close> never skips a
  list, and the joined empty list is the one value \<^verbatim>\<open>""\<close>. The no-merge terms emit
  nothing, and neither does the \<^verbatim>\<open>title\<close> element, which is guarded by the joined string.
\<close>

theorem applyMetadata_absent_terms:
  "applyMetadata \<lparr>DCMETA = True, getDC = (\<lambda>term. []), doc_lines = []\<rparr> =
     [Element ''meta'' [(''property'', ''og:type''), (''content'', ''article'')] [] None [],
      Element ''meta'' [(''property'', ''og:title''), (''content'', [])] [] None [],
      Element ''meta'' [(''property'', ''og:description''), (''content'', [])] [] None []]"
  by (simp add: applyMetadata_def terms_def term_tags_def js_not_array_def og_def createElement_def)

section \<open>Images\<close>

lemma image_line_no_blob:
  assumes "ctx_ok s" and "\<not> truthy content" and "blob s = None"
  shows "\<exists>s1 p t q. destEl (if r then reset s else s) = Inr (s1, p)
     \<and> appendChild p (createElement ''img'') (sect s1) = Some (t, q)
     \<and> step s (TypeLine r (T_IMAGE content))
         = Inl (FLTError ''No image content available'', s1\<lparr>sect := t\<rparr>)
     \<and> node_at q (sect s1) = None
     \<and> node_at q t = Some (Element ''img'' [] [] None [])"
proof -
  let ?s = "if r then reset s else s"
  from assms(1) have "ctx_ok ?s" by (rule ctx_ok_reset)
  from destEl_succeeds[OF this] obtain s1 p where d: "destEl ?s = Inr (s1, p)" by blast
  from append_at_dest_Inr[OF d, of "createElement ''img''"] obtain t q where
    t: "appendChild p (createElement ''img'') (sect s1) = Some (t, q)"
    and a: "append_at_dest (createElement ''img'') ?s = Inr (s1\<lparr>sect := t\<rparr>, q)"
    and n: "node_at q (sect s1) = None" "node_at q t = Some (createElement ''img'')"
    by blast
  from destEl_frame[OF d] assms(3) have "blob s1 = None"
    by (cases r) (simp_all add: reset_def)
  with a assms(2) have "step s (TypeLine r (T_IMAGE content))
         = Inl (FLTError ''No image content available'', s1\<lparr>sect := t\<rparr>)"
    by (simp add: image_line_def)
  with d t n show ?thesis by (auto simp: createElement_def)
qed

text \<open>
  C10. At any point of a pass (after any lines \<open>ls\<close> that were rendered), an IMAGE line
  with no inline content (\<^verbatim>\<open>null\<close> or the empty string) and no pending blob throws
  "No image content available", and the context at the throw holds the tree with an \<^verbatim>\<open>img\<close>
  element without attributes appended to the destination element: at its address \<open>q\<close>
  there was no node before.
\<close>

theorem image_failure_after_append:
  assumes "run (init_ctx opts d) ls = Inr s" and "\<not> truthy content" and "blob s = None"
  shows "\<exists>s1 p t q. destEl (if r then reset s else s) = Inr (s1, p)
     \<and> appendChild p (createElement ''img'') (sect s1) = Some (t, q)
     \<and> run (init_ctx opts d) (ls @ [TypeLine r (T_IMAGE content)])
         = Inl (FLTError ''No image content available'', s1\<lparr>sect := t\<rparr>)
     \<and> node_at q (sect s1) = None
     \<and> node_at q t = Some (Element ''img'' [] [] None [])"
  using image_line_no_blob[OF reachable_ok[OF assms(1)] assms(2,3), of r] assms(1)
  by (simp add: run_snoc)

theorem image_failure_after_append_witness:
  "run (init_ctx default_options (plain_document [])) [TypeLine False (T_SECTION ALIGN_NONE False)]
     = Inr (init_ctx default_options (plain_document []))
   \<and> \<not> truthy None \<and> blob (init_ctx default_options (plain_document [])) = None
   \<and> run (init_ctx default_options (plain_document []))
        ([TypeLine False (T_SECTION ALIGN_NONE False)] @ [TypeLine False (T_IMAGE None)])
       = Inl (FLTError ''No image content available'',
              (init_ctx default_options (plain_document []))
               \<lparr>sect := Element ''section'' [] [] None
                  [Element ''p'' [] [] None [Element ''img'' [] [] None []]]\<rparr>)"
proof -
  let ?s = "init_ctx default_options (plain_document [])"
  have h1: "run ?s [TypeLine False (T_SECTION ALIGN_NONE False)] = Inr ?s"
    by (simp add: init_ctx_def section_line_def hasChildNodes_def createElement_def add_align_def
        default_options_def plain_document_def title_heading_def)
  have h2: "\<not> truthy None" by simp
  have h3: "blob ?s = None" by (simp add: init_ctx_def)
  have d: "destEl (if False then reset ?s else ?s)
       = Inr (?s\<lparr>sect := Element ''section'' [] [] None [Element ''p'' [] [] None []]\<rparr>, [0])"
    by (simp add: init_ctx_def destEl_def last_child_or_new_def append_to_sect_def createElement_def)
  from image_failure_after_append[OF h1 h2 h3, of False] d h1 h2 h3 show ?thesis
    by (auto simp: createElement_def)
qed

text \<open>
  C7. At any point of a pass, for an IMAGE line with no inline content: without a pending
  blob the pass fails with the \<^verbatim>\<open>FLTError\<close> "No image content available"; with a pending
  blob the line is rendered, and what is appended to the destination element is an \<^verbatim>\<open>img\<close>
  whose \<^verbatim>\<open>src\<close> is \<^verbatim>\<open>data:<mediaType>;base64,<data>\<close> of that blob (and whose title is the
  pending hint, if there is one).
\<close>

theorem image_without_content:
  assumes "run (init_ctx opts d) ls = Inr s" and "\<not> truthy content"
  shows "(blob s = None \<longrightarrow>
            (\<exists>s'. run (init_ctx opts d) (ls @ [TypeLine r (T_IMAGE content)])
                    = Inl (FLTError ''No image content available'', s')))
     \<and> (\<forall>mediaType dt. blob s = Some (mediaType, dt) \<longrightarrow>
            (\<exists>s1 p t q. destEl (if r then reset s else s) = Inr (s1, p)
               \<and> appendChild p
                    (Element ''img''
                       ((''src'', ''data:'' @ mediaType @ '';base64,'' @ dt)
                          # (if truthy (hint s1) then [(''title'', js_string (hint s1))] else []))
                       [] None [])
                    (sect s1) = Some (t, q)
               \<and> run (init_ctx opts d) (ls @ [TypeLine r (T_IMAGE content)])
                    = Inr (s1\<lparr>sect := t, hint := clear_hint (hint s1)\<rparr>)))"
proof (intro conjI impI allI)
  assume "blob s = None"
  from image_line_no_blob[OF reachable_ok[OF assms(1)] assms(2) this, of r] assms(1)
  show "\<exists>s'. run (init_ctx opts d) (ls @ [TypeLine r (T_IMAGE content)])
                    = Inl (FLTError ''No image content available'', s')"
    by (auto simp: run_snoc)
next
  fix mediaType dt
  assume b: "blob s = Some (mediaType, dt)"
  let ?s = "if r then reset s else s"
  from reachable_ok[OF assms(1)] have "ctx_ok ?s" by (rule ctx_ok_reset)
  from destEl_succeeds[OF this] obtain s1 p where d: "destEl ?s = Inr (s1, p)" by blast
  from append_at_dest_Inr[OF d, of "createElement ''img''"] obtain t1 q where
    t1: "appendChild p (createElement ''img'') (sect s1) = Some (t1, q)"
    and a: "append_at_dest (createElement ''img'') ?s = Inr (s1\<lparr>sect := t1\<rparr>, q)"
    by blast
  let ?g = "\<lambda>img. use_hint (hint s1) (setAttribute ''src'' (data_uri (mediaType, dt)) img)"
  from appendChild_then_update[OF t1, of ?g] obtain t2 where
    u: "update_at q ?g t1 = Some t2"
    and a2: "appendChild p (?g (createElement ''img'')) (sect s1) = Some (t2, q)" by blast
  from destEl_frame[OF d] b have "blob s1 = Some (mediaType, dt)"
    by (cases r) (simp_all add: reset_def)
  with a u assms(2) have "step s (TypeLine r (T_IMAGE content))
      = Inr (s1\<lparr>sect := t2, hint := clear_hint (hint s1)\<rparr>)"
    by (simp add: image_line_def set_image_def)
  with assms(1) have "run (init_ctx opts d) (ls @ [TypeLine r (T_IMAGE content)])
      = Inr (s1\<lparr>sect := t2, hint := clear_hint (hint s1)\<rparr>)"
    by (simp add: run_snoc)
  moreover have "?g (createElement ''img'') = Element ''img''
                       ((''src'', ''data:'' @ mediaType @ '';base64,'' @ dt)
                          # (if truthy (hint s1) then [(''title'', js_string (hint s1))] else []))
                       [] None []"
    by (simp add: use_hint_def createElement_def data_uri_def)
  ultimately show "\<exists>s1 p t q. destEl ?s = Inr (s1, p)
               \<and> appendChild p
                    (Element ''img''
                       ((''src'', ''data:'' @ mediaType @ '';base64,'' @ dt)
                          # (if truthy (hint s1) then [(''title'', js_string (hint s1))] else []))
                       [] None [])
                    (sect s1) = Some (t, q)
               \<and> run (init_ctx opts d) (ls @ [TypeLine r (T_IMAGE content)])
                    = Inr (s1\<lparr>sect := t, hint := clear_hint (hint s1)\<rparr>)"
    using d a2 by auto
qed

theorem image_without_content_witness:
  "run (init_ctx default_options (plain_document [])) [TypeLine False (T_BLOB ''image/png'' ''AAAA'')]
     = Inr ((init_ctx default_options (plain_document []))\<lparr>blob := Some (''image/png'', ''AAAA'')\<rparr>)
   \<and> \<not> truthy (Some [])
   \<and> run (init_ctx default_options (plain_document []))
        ([TypeLine False (T_BLOB ''image/png'' ''AAAA'')] @ [TypeLine False (T_IMAGE (Some []))])
     = Inr ((init_ctx default_options (plain_document []))
         \<lparr>blob := Some (''image/png'', ''AAAA''),
          sect := Element ''section'' [] [] None
            [Element ''p'' [] [] None
              [Element ''img'' [(''src'', ''data:image/png;base64,AAAA'')] [] None []]]\<rparr>)"
proof -
  let ?init = "init_ctx default_options (plain_document [])"
  let ?s = "?init\<lparr>blob := Some (''image/png'', ''AAAA'')\<rparr>"
  have h1: "run ?init [TypeLine False (T_BLOB ''image/png'' ''AAAA'')] = Inr ?s" by simp
  have h2: "\<not> truthy (Some [])" by simp
  have b: "blob ?s = Some (''image/png'', ''AAAA'')" by simp
  have d: "destEl (if False then reset ?s else ?s)
       = Inr (?s\<lparr>sect := Element ''section'' [] [] None [Element ''p'' [] [] None []]\<rparr>, [0])"
    by (simp add: init_ctx_def destEl_def last_child_or_new_def append_to_sect_def createElement_def)
  from image_without_content[OF h1 h2, of False] b d h1 h2 show ?thesis
    by (auto simp: init_ctx_def clear_hint_def)
qed

section \<open>Cleanup\<close>

lemma cleanup_tagName [simp]: "tagName (cleanup n) = tagName n"
  by (cases n) auto







section \<open>The nesting of a text line\<close>

lemma append_children_Nil [simp]: "append_children p [] t = Some t"
  by (simp add: append_children_def)

lemma append_children_Cons:
  "append_children p (c # cs) t =
     (case appendChild p c t of None \<Rightarrow> None | Some (t1, q) \<Rightarrow> append_children p cs t1)"
  by (simp add: append_children_def split: option.splits)

lemma do_fragments_nodes:
  "fs \<noteq> [] \<Longrightarrow> do_fragments out fs t = append_children out (fragment_nodes fs) t"
  by (induction out fs t rule: do_fragments.induct)
    (auto simp: append_children_Cons createElement_def split: option.splits)

lemma fill_appended:
  "appendChild out (Element tg a c f ks0) t = Some (t1, q) \<Longrightarrow>
   append_children q kids t1 = map_option fst (appendChild out (Element tg a c f (ks0 @ kids)) t)"
proof (induction kids arbitrary: ks0 t1)
  case Nil
  then show ?case by simp
next
  case (Cons k kids)
  have "appendChild [] k (Element tg a c f ks0) = Some (Element tg a c f (ks0 @ [k]), [length ks0])"
    by simp
  from appendChild_then_append[OF Cons.prems this] obtain t2 where
    a: "appendChild q k t1 = Some (t2, q @ [length ks0])"
    and b: "appendChild out (Element tg a c f (ks0 @ [k])) t = Some (t2, q)" by auto
  from Cons.IH[OF b] a show ?case by (simp add: append_children_Cons)
qed

lemma appendChild_None_child:
  "appendChild p c t = None \<Longrightarrow> appendChild p c' t = None"
proof (induction p arbitrary: t)
  case Nil
  then show ?case by (cases t) auto
next
  case (Cons i p)
  then show ?case by (cases t) (auto split: if_splits option.splits)
qed

lemma wrap_step:
  "(case wrap flag (Element tg [] cl None []) (Some (t, out)) of
      None \<Rightarrow> None
    | Some (t1, o1) \<Rightarrow> append_children o1 kids t1)
   = append_children out (wrapped flag tg cl kids) t"
proof (cases flag)
  case False
  then show ?thesis by (simp add: wrap_def wrapped_def)
next
  case True
  show ?thesis
  proof (cases "appendChild out (Element tg [] cl None []) t")
    case None
    from appendChild_None_child[OF this] True None show ?thesis
      by (simp add: wrap_def wrapped_def append_children_Cons)
  next
    case (Some r)
    obtain t1 q where r: "r = (t1, q)" by (cases r)
    from fill_appended[OF Some[unfolded r], of kids] True Some r show ?thesis
      by (auto simp: wrap_def wrapped_def append_children_Cons split: option.splits)
  qed
qed

lemma wrap_cont:
  "(case wrap flag (Element tg [] cl None []) st of
      None \<Rightarrow> None
    | Some (t1, o1) \<Rightarrow> append_children o1 kids t1)
   = (case st of
        None \<Rightarrow> None
      | Some (t, out) \<Rightarrow> append_children out (wrapped flag tg cl kids) t)"
proof (cases st)
  case None
  then show ?thesis by (simp add: wrap_def)
next
  case (Some x)
  obtain t out where "x = (t, out)" by (cases x)
  with Some wrap_step[where flag = flag and tg = tg and cl = cl and t = t and out = out and kids = kids]
  show ?thesis by simp
qed

lemma wrappers_nesting:
  "(case wrappers l t out of None \<Rightarrow> None | Some (t5, inner) \<Rightarrow> append_children inner kids t5)
   = append_children out (nesting l kids) t"
  unfolding wrappers_def createElement_def style_span_eq nesting_def
  by (simp only: wrap_cont option.case prod.case)

lemma split_nl_nonempty [simp]: "split_nl x \<noteq> []"
  by (induction x) (auto split: list.splits)

lemma text_line_refines:
  "step s (TextLine r l) =
     (case destEl (if r then reset s else s) of
        Inl e \<Rightarrow> Inl e
      | Inr (s1, out0) \<Rightarrow>
          (case append_children (insertion_point (link s1) out0)
                  (nesting l (fragment_nodes (split_nl (line_text l)))) (sect s1) of
             None \<Rightarrow> Inl (TypeError, s1)
           | Some t' \<Rightarrow> Inr (s1\<lparr>sect := t'\<rparr>)))"
proof -
  let ?s = "if r then reset s else s"
  let ?fs = "split_nl (line_text l)"
  show ?thesis
  proof (cases "destEl ?s")
    case (Inl e)
    then show ?thesis by (simp add: text_line_handler_def)
  next
    case (Inr x)
    obtain s1 out0 where x: "x = (s1, out0)" by (cases x)
    let ?out = "insertion_point (link s1) out0"
    have io: "(case link s1 of None \<Rightarrow> out0 | Some lk \<Rightarrow> if contains_node out0 lk then lk else out0) = ?out"
      by (simp add: insertion_point_def)
    have "(case wrappers l (sect s1) ?out of
             None \<Rightarrow> Inl (TypeError, s1)
           | Some (t, inner) \<Rightarrow>
               (case do_fragments inner ?fs t of
                  None \<Rightarrow> Inl (TypeError, s1)
                | Some t' \<Rightarrow> Inr (s1\<lparr>sect := t'\<rparr>)))
       = (case append_children ?out (nesting l (fragment_nodes ?fs)) (sect s1) of
             None \<Rightarrow> Inl (TypeError, s1)
           | Some t' \<Rightarrow> Inr (s1\<lparr>sect := t'\<rparr>))"
    proof (cases "wrappers l (sect s1) ?out")
      case None
      with wrappers_nesting[where l = l and t = "sect s1" and out = ?out
          and kids = "fragment_nodes ?fs"]
      show ?thesis by simp
    next
      case (Some y)
      obtain t inner where "y = (t, inner)" by (cases y)
      with Some wrappers_nesting[where l = l and t = "sect s1" and out = ?out
          and kids = "fragment_nodes ?fs"]
      show ?thesis by (simp add: do_fragments_nodes)
    qed
    with Inr x io show ?thesis by (simp add: text_line_handler_def Let_def)
  qed
qed

text \<open>
  C8. A text line does what the specification says: at its insertion point it appends
  the fragments, wrapped, from the outside in, in \<^verbatim>\<open>em\<close> if italic, \<^verbatim>\<open>strong\<close> if bold,
  one \<^verbatim>\<open>span\<close> with the classes of underline, strikeout and monospace if one of these
  is set, \<^verbatim>\<open>sup\<close> if supertext, \<^verbatim>\<open>sub\<close> if subtext. The flags are fields of the line;
  there is no order among them. For italic, bold, underline and supertext the nesting
  is \<^verbatim>\<open>em > strong > span.underline > sup\<close>.
\<close>

theorem text_line_nesting:
  "step s (TextLine r l) =
     (case destEl (if r then reset s else s) of
        Inl e \<Rightarrow> Inl e
      | Inr (s1, out0) \<Rightarrow>
          (case append_children (insertion_point (link s1) out0)
                  (nesting l (fragment_nodes (split_nl (line_text l)))) (sect s1) of
             None \<Rightarrow> Inl (TypeError, s1)
           | Some t' \<Rightarrow> Inr (s1\<lparr>sect := t'\<rparr>)))
   \<and> nesting
        \<lparr>line_text = x, italic = True, bold = True, underline = True, strikeout = False,
         mono' = False, supertext = True, subtext = False\<rparr> kids
      = [Element ''em'' [] [] None
          [Element ''strong'' [] [] None
            [Element ''span'' [] [''underline''] None
              [Element ''sup'' [] [] None kids]]]]"
  using text_line_refines[of s r l] by (simp add: nesting_def wrapped_def span_classes_def)

text \<open>A bold line after SECTION: one paragraph with the text in \<^verbatim>\<open>strong\<close>.\<close>

theorem text_line_nesting_witness:
  "step (init_ctx default_options (plain_document []))
        (TextLine False ((plain_text ''Hello'')\<lparr>bold := True\<rparr>))
     = Inr ((init_ctx default_options (plain_document []))
         \<lparr>sect := Element ''section'' [] [] None
            [Element ''p'' [] [] None [Element ''strong'' [] [] None [Text ''Hello'']]]\<rparr>)"
proof -
  let ?init = "init_ctx default_options (plain_document [])"
  have d: "destEl (if False then reset ?init else ?init)
       = Inr (?init\<lparr>sect := Element ''section'' [] [] None [Element ''p'' [] [] None []]\<rparr>, [0])"
    by (simp add: init_ctx_def destEl_def last_child_or_new_def append_to_sect_def createElement_def)
  have n: "nesting ((plain_text ''Hello'')\<lparr>bold := True\<rparr>)
             (fragment_nodes (split_nl (line_text ((plain_text ''Hello'')\<lparr>bold := True\<rparr>))))
           = [Element ''strong'' [] [] None [Text ''Hello'']]"
    by (simp add: nesting_def wrapped_def plain_text_def span_classes_def)
  have lk: "link ?init = None" by (simp add: init_ctx_def)
  from text_line_nesting[where s = ?init and r = False
      and l = "(plain_text ''Hello'')\<lparr>bold := True\<rparr>"]
  have "step ?init (TextLine False ((plain_text ''Hello'')\<lparr>bold := True\<rparr>))
      = (case destEl (if False then reset ?init else ?init) of
           Inl e \<Rightarrow> Inl e
         | Inr (s1, out0) \<Rightarrow>
             (case append_children (insertion_point (link s1) out0)
                     (nesting ((plain_text ''Hello'')\<lparr>bold := True\<rparr>)
                        (fragment_nodes
                           (split_nl (line_text ((plain_text ''Hello'')\<lparr>bold := True\<rparr>)))))
                     (sect s1) of
                None \<Rightarrow> Inl (TypeError, s1)
              | Some t' \<Rightarrow> Inr (s1\<lparr>sect := t'\<rparr>)))"
    by (rule conjunct1)
  then show ?thesis
    unfolding d n by (simp add: lk append_children_def insertion_point_def)
qed

section \<open>Passes without a DESTINATION line\<close>

lemma texts_wrapped:
  "sum_list (map texts (wrapped flag tg cl kids)) = sum_list (map texts kids)"
  by (simp add: wrapped_def texts_def)

lemma texts_nesting: "sum_list (map texts (nesting l kids)) = sum_list (map texts kids)"
  by (simp add: nesting_def texts_wrapped)

lemma texts_fragment_nodes: "sum_list (map texts (fragment_nodes fs)) = mset fs"
  by (induction fs rule: fragment_nodes.induct) (simp_all add: texts_def)

lemma texts_append_children:
  "append_children p nodes t = Some t' \<Longrightarrow> texts t' = texts t + sum_list (map texts nodes)"
  using collect_apply_appends[of "map (Pair p) nodes" t t' text_of]
  by (simp add: append_children_def texts_def comp_def)

lemma texts_destEl: "destEl s = Inr (s1, p) \<Longrightarrow> texts (sect s1) = texts (sect s)"
proof -
  assume "destEl s = Inr (s1, p)"
  from destEl_trace[OF this] obtain ops where
    a: "apply_appends ops (sect s) = Some (sect s1)"
    and n: "set (map snd ops) \<subseteq> {createElement ''p'', createElement ''h2''}" by blast
  from n have "sum_list (map (\<lambda>op. collect text_of (snd op)) ops) = {#}"
    by (induction ops) (auto simp: createElement_def)
  with collect_apply_appends[OF a, of text_of] show ?thesis by (simp add: texts_def)
qed

lemma append_children_succeeds:
  "node_at p t = Some n \<Longrightarrow> tagName n \<noteq> None \<Longrightarrow> \<exists>t'. append_children p nodes t = Some t'"
proof (induction nodes arbitrary: t n)
  case Nil
  then show ?case by simp
next
  case (Cons c nodes)
  from appendChild_succeeds[OF Cons.prems, of c] obtain t1 q where
    a: "appendChild p c t = Some (t1, q)" by blast
  from node_at_appendChild[OF a Cons.prems(1)] Cons.prems(2) obtain n1 where
    "node_at p t1 = Some n1" "tagName n1 \<noteq> None" by auto
  from Cons.IH[OF this] a show ?case by (simp add: append_children_Cons)
qed

lemma insertion_point_valid:
  assumes ok: "ctx_ok s" and d: "destEl s = Inr (s1, out0)"
  shows "\<exists>n. node_at (insertion_point (link s1) out0) (sect s1) = Some n \<and> tagName n \<noteq> None"
proof (cases "link s1")
  case None
  with destEl_valid[OF d] show ?thesis by (simp add: insertion_point_def)
next
  case (Some lk)
  with destEl_frame[OF d] have l: "link s = Some lk" by simp
  with ok obtain n where "node_at lk (sect s) = Some n" "tagName n \<noteq> None"
    by (auto simp: ctx_ok_def is_tag_def split: option.splits)
  with grows_node_at[OF destEl_grows[OF d], of lk n] obtain n' where
    "node_at lk (sect s1) = Some n'" "tagName n' \<noteq> None" by auto
  with Some destEl_valid[OF d] show ?thesis by (auto simp: insertion_point_def)
qed

lemma text_line_succeeds:
  assumes ok: "ctx_ok s"
  shows "\<exists>s'. step s (TextLine r l) = Inr s' \<and> dest s' = dest s \<and> body s' = body s
     \<and> tagName (sect s') = tagName (sect s)
     \<and> texts (sect s') = texts (sect s) + mset (split_nl (line_text l))"
proof -
  let ?s = "if r then reset s else s"
  have ok': "ctx_ok ?s" using ok by (rule ctx_ok_reset)
  from destEl_succeeds[OF ok'] obtain s1 out0 where d: "destEl ?s = Inr (s1, out0)" by blast
  from insertion_point_valid[OF ok' d] obtain n where
    "node_at (insertion_point (link s1) out0) (sect s1) = Some n" "tagName n \<noteq> None" by blast
  from append_children_succeeds[OF this] obtain t' where
    a: "append_children (insertion_point (link s1) out0)
          (nesting l (fragment_nodes (split_nl (line_text l)))) (sect s1) = Some t'" by blast
  from text_line_refines[of s r l] d a have st: "step s (TextLine r l) = Inr (s1\<lparr>sect := t'\<rparr>)"
    by simp
  from texts_append_children[OF a] texts_destEl[OF d]
  have "texts t' = texts (sect s) + mset (split_nl (line_text l))"
    by (cases r) (simp_all add: texts_nesting texts_fragment_nodes reset_def)
  moreover from text_line_grows[of l ?s "s1\<lparr>sect := t'\<rparr>"] st
  have g: "grows (sect ?s) t'" by simp
  from grows_node_at[OF g, of "[]" "sect ?s"] have "tagName t' = tagName (sect s)"
    by (cases r) (simp_all add: reset_def)
  ultimately show ?thesis using st destEl_frame[OF d]
    by (cases r) (simp_all add: reset_def)
qed


lemma type_line_dest:
  assumes "type_line_handler ty s = Inr s'" "\<forall>d h. ty \<noteq> T_DESTINATION d h" "dest s = D_BODY"
  shows "dest s' = D_BODY"
proof (cases ty)
  case (T_SECTION al br)
  with assms show ?thesis by (auto simp: section_line_def Let_def)
next
  case (T_PARAGRAPH al)
  with assms paragraph_grows[of al s s'] show ?thesis by auto
next
  case (T_LINK c)
  with assms link_grows[of c s s'] show ?thesis by auto
next
  case (T_ANCHOR c)
  with assms anchor_grows[of c s s'] show ?thesis by auto
next
  case (T_IMAGE c)
  with assms image_grows[of c s s'] show ?thesis by auto
next
  case (T_TABLE n)
  with assms table_grows[of n s s'] show ?thesis by auto
qed (use assms in auto)

lemma step_dest_body:
  assumes "step s l = Inr s'" "\<not> is_destination l" "dest s = D_BODY"
  shows "dest s' = D_BODY"
proof (cases l)
  case (TypeLine r ty)
  with assms(2) have nd: "\<forall>d h. ty \<noteq> T_DESTINATION d h" by auto
  from assms(3) have "dest (if r then reset s else s) = D_BODY" by (simp add: reset_def)
  from type_line_dest[OF _ nd this] assms(1) TypeLine show ?thesis by simp
next
  case (TextLine r tx)
  with assms text_line_grows[of tx "if r then reset s else s" s'] show ?thesis
    by (cases r) (simp_all add: reset_def)
next
  case (OtherLine r)
  with assms show ?thesis by (auto simp: reset_def)
qed

lemma run_dest_body:
  "run s ls = Inr s' \<Longrightarrow> \<forall>l \<in> set ls. \<not> is_destination l \<Longrightarrow> dest s = D_BODY \<Longrightarrow> dest s' = D_BODY"
proof (induction ls arbitrary: s)
  case Nil
  then show ?case by simp
next
  case (Cons l ls)
  from Cons.prems(1) obtain s1 where s1: "step s l = Inr s1" "run s1 ls = Inr s'"
    by (auto split: sum.splits)
  from step_dest_body[OF s1(1)] Cons.prems have "dest s1 = D_BODY" by simp
  from Cons.IH[OF s1(2) _ this] Cons.prems(2) show ?case by simp
qed

lemma run_take: "run s ls = Inr s' \<Longrightarrow> \<exists>sk. run s (take k ls) = Inr sk"
  using run_append[of s "take k ls" "drop k ls"] by (auto split: sum.splits)

lemma since_section_snoc:
  "since_section (ls @ [l]) = (if is_section l then [] else since_section ls @ [l])"
  by (simp add: since_section_def)

lemma until_section_snoc:
  "until_section (ls @ [l]) = (if is_section l then ls @ [l] else until_section ls)"
  by (simp add: until_section_def)

lemma until_since: "until_section ls @ since_section ls = ls"
  unfolding until_section_def since_section_def
  by (metis rev_append rev_rev_ident takeWhile_dropWhile_id)

lemma text_fragments_append: "text_fragments (xs @ ys) = text_fragments xs + text_fragments ys"
  by (simp add: text_fragments_def)

lemma text_fragments_split: "text_fragments (until_section ls) + text_fragments (since_section ls) = text_fragments ls"
  using text_fragments_append[of "until_section ls" "since_section ls"] by (simp add: until_since)

lemma last_align_snoc: "last_align (ls @ [l]) = section_align (last_align ls) l"
  by (simp add: last_align_def)

lemma appendChild_root:
  "appendChild p c t = Some (t', q) \<Longrightarrow> attributes t' = attributes t \<and> classList t' = classList t"
  by (cases p; cases t) (auto split: if_splits option.splits)

lemma apply_appends_root:
  "apply_appends ops t = Some t' \<Longrightarrow> attributes t' = attributes t \<and> classList t' = classList t"
proof (induction ops arbitrary: t)
  case Nil
  then show ?case by simp
next
  case (Cons op ops)
  obtain p c where op: "op = (p, c)" by (cases op)
  with Cons.prems obtain t1 q where
    a: "appendChild p c t = Some (t1, q)" and r: "apply_appends ops t1 = Some t'"
    by (auto split: option.splits)
  from Cons.IH[OF r] appendChild_root[OF a] show ?case by simp
qed

lemma grows_root: "grows t t' \<Longrightarrow> attributes t' = attributes t \<and> classList t' = classList t"
  unfolding grows_def using apply_appends_root by blast

lemma texts_appendChild: "appendChild p c t = Some (t', q) \<Longrightarrow> texts t' = texts t + texts c"
  unfolding texts_def by (rule collect_appendChild)

lemma append_at_dest_texts:
  assumes "append_at_dest c s = Inr (s1, q)"
  shows "texts (sect s1) = texts (sect s) + texts c"
proof -
  from append_at_dest_InrE[OF assms] obtain s0 p where
    d: "destEl s = Inr (s0, p)" and ap: "appendChild p c (sect s0) = Some (sect s1, q)"
    by blast
  from texts_appendChild[OF ap] texts_destEl[OF d] show ?thesis by simp
qed

lemma paragraph_texts:
  assumes "paragraph_line al s = Inr s'"
  shows "texts (sect s') = texts (sect s)"
proof -
  from assms obtain s1 p cont t q where
    d: "destEl (s\<lparr>link := None\<rparr>) = Inr (s1, p)"
    and a: "appendChild cont (add_align al (createElement ''p'')) (sect s1) = Some (t, q)"
    and e: "s' = s1\<lparr>sect := t\<rparr>"
    by (auto simp: paragraph_line_def split: sum.splits option.splits prod.splits)
  have "texts (add_align al (createElement ''p'')) = {#}"
    by (cases al) (simp_all add: add_align_def createElement_def texts_def)
  with texts_appendChild[OF a] texts_destEl[OF d] e show ?thesis by simp
qed

lemma link_texts:
  assumes "link_line c s = Inr s'"
  shows "texts (sect s') = texts (sect s)"
proof -
  let ?a = "use_hint (hint s) (setAttribute ''href'' (js_string c) (createElement ''a''))"
  from assms obtain s1 q where
    a: "append_at_dest ?a s = Inr (s1, q)"
    and e: "s' = s1\<lparr>link := Some q, hint := clear_hint (hint s)\<rparr>"
    by (auto simp: link_line_def split: sum.splits prod.splits)
  have "texts ?a = {#}" by (simp add: use_hint_def createElement_def texts_def)
  with append_at_dest_texts[OF a] e show ?thesis by simp
qed

lemma anchor_texts:
  assumes "anchor_line c s = Inr s'"
  shows "texts (sect s') = texts (sect s)"
proof -
  let ?a = "setAttribute ''name'' (js_string c) (createElement ''a'')"
  from assms obtain q where a: "append_at_dest ?a s = Inr (s', q)"
    by (auto simp: anchor_line_def split: sum.splits prod.splits)
  have "texts ?a = {#}" by (simp add: createElement_def texts_def)
  with append_at_dest_texts[OF a] show ?thesis by simp
qed

lemma image_texts:
  assumes "image_line c s = Inr s'"
  shows "texts (sect s') = texts (sect s)"
proof -
  from assms obtain s1 q src where
    a: "append_at_dest (createElement ''img'') s = Inr (s1, q)"
    and si: "set_image q src s1 = Inr s'"
    by (auto simp: image_line_def split: sum.splits prod.splits if_splits option.splits)
  from append_at_dest_InrE[OF a] obtain s0 p where
    d: "destEl s = Inr (s0, p)"
    and ap: "appendChild p (createElement ''img'') (sect s0) = Some (sect s1, q)"
    by blast
  let ?g = "\<lambda>img. use_hint (hint s1) (setAttribute ''src'' src img)"
  from appendChild_then_update[OF ap, of ?g] obtain t2 where
    u: "update_at q ?g (sect s1) = Some t2"
    and a2: "appendChild p (?g (createElement ''img'')) (sect s0) = Some (t2, q)" by blast
  from si u have e: "s' = s1\<lparr>sect := t2, hint := clear_hint (hint s1)\<rparr>"
    by (simp add: set_image_def)
  have "texts (?g (createElement ''img'')) = {#}"
    by (simp add: use_hint_def createElement_def texts_def)
  with texts_appendChild[OF a2] texts_destEl[OF d] e show ?thesis by simp
qed

lemma table_texts:
  assumes "table_line n s = Inr s'"
  shows "texts (sect s') = texts (sect s)"
proof -
  from assms obtain q where a: "append_to_sect (Element ''table'' [] [] (Some n) []) s = Inr (s', q)"
    by (auto simp: table_line_def split: sum.splits prod.splits)
  from append_to_sect_InrE[OF a]
  have "appendChild [] (Element ''table'' [] [] (Some n) []) (sect s) = Some (sect s', q)" by simp
  from texts_appendChild[OF this] show ?thesis by (simp add: texts_def)
qed

lemma section_line_texts:
  assumes "is_tag ''section'' (sect s)"
  shows "sect (section_line al br s) = add_align al (createElement ''section'')
    \<and> sum_list (map texts (body (section_line al br s)))
        = sum_list (map texts (body s)) + texts (sect s)"
proof -
  from assms obtain a c f ks where e: "sect s = Element ''section'' a c f ks"
    by (cases "sect s") (auto simp: is_tag_def)
  have "\<not> hasChildNodes (sect s) \<Longrightarrow> texts (sect s) = {#}"
    by (simp add: e hasChildNodes_def texts_def)
  then show ?thesis
    by (auto simp: section_line_def Let_def createElement_def texts_def)
qed

lemma fresh_section:
  "texts (add_align al (createElement ''section'')) = {#}"
  "attributes (add_align al (createElement ''section'')) = []"
  by (cases al; simp add: add_align_def createElement_def texts_def)+

lemma step_keeps_section:
  assumes st: "step s l = Inr s'" and nd: "\<not> is_destination l" and ns: "\<not> is_section l"
  shows "texts (sect s') = texts (sect s) + line_fragments l \<and> body s' = body s
    \<and> attributes (sect s') = attributes (sect s) \<and> classList (sect s') = classList (sect s)"
proof (cases l)
  case (TextLine r tx)
  let ?s = "if r then reset s else s"
  from st TextLine have h: "text_line_handler tx ?s = Inr s'" by simp
  from st TextLine text_line_refines[of s r tx] obtain s1 out0 t' where
    d: "destEl ?s = Inr (s1, out0)"
    and a: "append_children (insertion_point (link s1) out0)
          (nesting tx (fragment_nodes (split_nl (line_text tx)))) (sect s1) = Some t'"
    and e: "s' = s1\<lparr>sect := t'\<rparr>"
    by (auto split: sum.splits option.splits prod.splits)
  from texts_append_children[OF a] texts_destEl[OF d] e
  have "texts (sect s') = texts (sect ?s) + mset (split_nl (line_text tx))"
    by (simp add: texts_nesting texts_fragment_nodes)
  with text_line_grows[OF h] grows_root[of "sect ?s" "sect s'"] TextLine show ?thesis
    by (cases r) (simp_all add: reset_def)
next
  case (OtherLine r)
  with st show ?thesis by (auto simp: reset_def)
next
  case (TypeLine r ty)
  let ?s = "if r then reset s else s"
  have eq: "sect ?s = sect s" "body ?s = body s" by (simp_all add: reset_def)
  from st TypeLine have h: "type_line_handler ty ?s = Inr s'" by simp
  have "texts (sect s') = texts (sect ?s) \<and> body s' = body ?s
    \<and> attributes (sect s') = attributes (sect ?s) \<and> classList (sect s') = classList (sect ?s)"
  proof (cases ty)
    case (T_SECTION al br)
    with ns TypeLine show ?thesis by simp
  next
    case (T_PARAGRAPH al)
    with h paragraph_texts[of al ?s s'] paragraph_grows[of al ?s s'] grows_root[of "sect ?s" "sect s'"]
    show ?thesis by simp
  next
    case (T_HINT c)
    with h show ?thesis by auto
  next
    case (T_LINK c)
    with h link_texts[of c ?s s'] link_grows[of c ?s s'] grows_root[of "sect ?s" "sect s'"]
    show ?thesis by simp
  next
    case (T_ANCHOR c)
    with h anchor_texts[of c ?s s'] anchor_grows[of c ?s s'] grows_root[of "sect ?s" "sect s'"]
    show ?thesis by simp
  next
    case (T_BLOB m dt)
    with h show ?thesis by auto
  next
    case (T_IMAGE c)
    with h image_texts[of c ?s s'] image_grows[of c ?s s'] grows_root[of "sect ?s" "sect s'"]
    show ?thesis by simp
  next
    case (T_TABLE n)
    with h table_texts[of n ?s s'] table_grows[of n ?s s'] grows_root[of "sect ?s" "sect s'"]
    show ?thesis by simp
  next
    case (T_DESTINATION d hd)
    with nd TypeLine show ?thesis by simp
  next
    case T_OTHER
    with h show ?thesis by auto
  qed
  with eq TypeLine show ?thesis by simp
qed

lemma section_of_pass:
  "list_all (\<lambda>l. \<not> is_destination l) ls \<Longrightarrow> run (init_ctx opts d) ls = Inr s \<Longrightarrow>
   attributes (sect s) = []
   \<and> classList (sect s) = classList (add_align (last_align ls) (createElement ''section''))
   \<and> texts (sect s) = text_fragments (since_section ls)
   \<and> sum_list (map texts (body s))
       = sum_list (map texts (title_heading opts d)) + text_fragments (until_section ls)"
proof (induction ls arbitrary: s rule: rev_induct)
  case Nil
  then show ?case
    by (auto simp: init_ctx_def createElement_def last_align_def add_align_def texts_def
        since_section_def until_section_def text_fragments_def)
next
  case (snoc l ls)
  from snoc.prems(2) obtain s0 where r0: "run (init_ctx opts d) ls = Inr s0" and st: "step s0 l = Inr s"
    by (auto simp: run_snoc split: sum.splits)
  from snoc.prems(1) have nd: "list_all (\<lambda>l. \<not> is_destination l) ls" "\<not> is_destination l"
    by simp_all
  from snoc.IH[OF nd(1) r0] have
    ih: "attributes (sect s0) = []"
      "classList (sect s0) = classList (add_align (last_align ls) (createElement ''section''))"
      "texts (sect s0) = text_fragments (since_section ls)"
      "sum_list (map texts (body s0))
         = sum_list (map texts (title_heading opts d)) + text_fragments (until_section ls)"
    by simp_all
  show ?case
  proof (cases "is_section l")
    case True
    then obtain r al br where l: "l = TypeLine r (T_SECTION al br)"
      by (cases l rule: is_section.cases) auto
    let ?s = "if r then reset s0 else s0"
    from reachable_ok[OF r0] have "is_tag ''section'' (sect ?s)"
      by (simp add: ctx_ok_def sect_ok_def reset_def)
    from section_line_texts[OF this, of al br] st l have
      e: "sect s = add_align al (createElement ''section'')"
      and b: "sum_list (map texts (body s)) = sum_list (map texts (body s0)) + texts (sect s0)"
      by (simp_all add: reset_def split: if_splits)
    have f: "text_fragments (ls @ [l]) = text_fragments ls" using l by (simp add: text_fragments_def)
    from e b ih True l f text_fragments_split[of ls] show ?thesis
      by (simp add: fresh_section since_section_snoc until_section_snoc last_align_snoc
          text_fragments_def[of "[]"] ac_simps)
  next
    case False
    have a: "section_align (last_align ls) l = last_align ls"
      using False by (cases "(last_align ls, l)" rule: section_align.cases) auto
    have f: "text_fragments [l] = line_fragments l" by (simp add: text_fragments_def)
    from step_keeps_section[OF st nd(2) False] ih False a f show ?thesis
      by (simp add: since_section_snoc until_section_snoc last_align_snoc text_fragments_append)
  qed
qed

text \<open>
  C9. Let the lines rendered so far hold no DESTINATION line. Then the destination is
  BODY after every prefix of them (at every step of the pass). The current section is the
  one that the last SECTION line opened (the one the pass starts with, if there is none):
  a \<^verbatim>\<open>section\<close> element without attributes, with the alignment class of that SECTION line,
  and the text nodes below it are the fragments of the text lines after that SECTION line,
  while the text nodes of the body before it are those of the title heading and the
  fragments of the text lines before that SECTION line. A text line that comes next is
  rendered: it leaves the destination BODY and the body before the current section as
  they are, and its fragments become text nodes below the current section.
\<close>

theorem body_destination_without_directives:
  assumes "list_all (\<lambda>l. \<not> is_destination l) ls" and "run (init_ctx opts d) ls = Inr s"
  shows "(\<forall>k. \<exists>sk. run (init_ctx opts d) (take k ls) = Inr sk \<and> dest sk = D_BODY)
     \<and> dest s = D_BODY \<and> is_tag ''section'' (sect s)
     \<and> attributes (sect s) = []
     \<and> classList (sect s) = classList (add_align (last_align ls) (createElement ''section''))
     \<and> texts (sect s) = text_fragments (since_section ls)
     \<and> sum_list (map texts (body s))
         = sum_list (map texts (title_heading opts d)) + text_fragments (until_section ls)
     \<and> (\<exists>s'. run (init_ctx opts d) (ls @ [TextLine r l]) = Inr s'
            \<and> dest s' = D_BODY \<and> body s' = body s \<and> is_tag ''section'' (sect s')
            \<and> attributes (sect s') = attributes (sect s) \<and> classList (sect s') = classList (sect s)
            \<and> texts (sect s') = texts (sect s) + mset (split_nl (line_text l)))"
proof -
  have i: "dest (init_ctx opts d) = D_BODY" by (simp add: init_ctx_def)
  from assms(1) have nd: "\<forall>l \<in> set ls. \<not> is_destination l" by (simp add: list_all_iff)
  from run_dest_body[OF assms(2) nd i] have b: "dest s = D_BODY" .
  from reachable_ok[OF assms(2)] have ok: "ctx_ok s" .
  then have sec: "is_tag ''section'' (sect s)" by (simp add: ctx_ok_def sect_ok_def)
  from text_line_succeeds[OF ok, of r l] obtain s' where
    st: "step s (TextLine r l) = Inr s'" and s': "dest s' = dest s" "body s' = body s"
    "tagName (sect s') = tagName (sect s)"
    "texts (sect s') = texts (sect s) + mset (split_nl (line_text l))" by blast
  from step_keeps_section[OF st] have
    root: "attributes (sect s') = attributes (sect s)" "classList (sect s') = classList (sect s)"
    by simp_all
  have pre: "\<exists>sk. run (init_ctx opts d) (take k ls) = Inr sk \<and> dest sk = D_BODY" for k
  proof -
    from run_take[OF assms(2), of k] obtain sk where sk: "run (init_ctx opts d) (take k ls) = Inr sk"
      by blast
    from nd have "\<forall>l \<in> set (take k ls). \<not> is_destination l" by (meson in_set_takeD)
    from run_dest_body[OF sk this i] sk show ?thesis by blast
  qed
  from st assms(2) have r': "run (init_ctx opts d) (ls @ [TextLine r l]) = Inr s'"
    by (simp add: run_snoc)
  from s' b sec have "dest s' = D_BODY" "is_tag ''section'' (sect s')" by (simp_all add: is_tag_def)
  with r' s' root have ex: "\<exists>s'. run (init_ctx opts d) (ls @ [TextLine r l]) = Inr s'
            \<and> dest s' = D_BODY \<and> body s' = body s \<and> is_tag ''section'' (sect s')
            \<and> attributes (sect s') = attributes (sect s) \<and> classList (sect s') = classList (sect s)
            \<and> texts (sect s') = texts (sect s) + mset (split_nl (line_text l))"
    by blast
  from section_of_pass[OF assms] pre b sec ex show ?thesis by blast
qed

text \<open>
  A text line, a SECTION line and a text line, then one more text line: the first text
  stays in the section the pass started with, the others are in the section of the
  SECTION line.
\<close>

theorem body_destination_without_directives_witness:
  "list_all (\<lambda>l. \<not> is_destination l)
     [TextLine False (plain_text ''one''), TypeLine False (T_SECTION ALIGN_CENTER False),
      TextLine False (plain_text ''two'')]
   \<and> run (init_ctx default_options (plain_document []))
       [TextLine False (plain_text ''one''), TypeLine False (T_SECTION ALIGN_CENTER False),
        TextLine False (plain_text ''two'')]
     = Inr ((init_ctx default_options (plain_document []))
         \<lparr>body := [Element ''section'' [] [] None [Element ''p'' [] [] None [Text ''one'']]],
          sect := Element ''section'' [] [''align-center''] None
                    [Element ''p'' [] [] None [Text ''two'']]\<rparr>)
   \<and> run (init_ctx default_options (plain_document []))
       ([TextLine False (plain_text ''one''), TypeLine False (T_SECTION ALIGN_CENTER False),
         TextLine False (plain_text ''two'')]
        @ [TextLine False (plain_text ''three'')])
     = Inr ((init_ctx default_options (plain_document []))
         \<lparr>body := [Element ''section'' [] [] None [Element ''p'' [] [] None [Text ''one'']]],
          sect := Element ''section'' [] [''align-center''] None
                    [Element ''p'' [] [] None [Text ''two'', Text ''three'']]\<rparr>)
   \<and> since_section
       [TextLine False (plain_text ''one''), TypeLine False (T_SECTION ALIGN_CENTER False),
        TextLine False (plain_text ''two'')]
     = [TextLine False (plain_text ''two'')]
   \<and> until_section
       [TextLine False (plain_text ''one''), TypeLine False (T_SECTION ALIGN_CENTER False),
        TextLine False (plain_text ''two'')]
     = [TextLine False (plain_text ''one''), TypeLine False (T_SECTION ALIGN_CENTER False)]
   \<and> last_align
       [TextLine False (plain_text ''one''), TypeLine False (T_SECTION ALIGN_CENTER False),
        TextLine False (plain_text ''two'')]
     = ALIGN_CENTER
   \<and> texts (Element ''section'' [] [''align-center''] None
                    [Element ''p'' [] [] None [Text ''two'']])
     = text_fragments [TextLine False (plain_text ''two'')]
   \<and> sum_list (map texts
         [Element ''section'' [] [] None [Element ''p'' [] [] None [Text ''one'']]])
     = sum_list (map texts (title_heading default_options (plain_document [])))
       + text_fragments
           [TextLine False (plain_text ''one''), TypeLine False (T_SECTION ALIGN_CENTER False)]
   \<and> texts (Element ''section'' [] [''align-center''] None
                    [Element ''p'' [] [] None [Text ''two'', Text ''three'']])
     = texts (Element ''section'' [] [''align-center''] None
                    [Element ''p'' [] [] None [Text ''two'']]) + mset (split_nl ''three'')"
proof -
  let ?ls = "[TextLine False (plain_text ''one''), TypeLine False (T_SECTION ALIGN_CENTER False),
        TextLine False (plain_text ''two'')]"
  let ?init = "init_ctx default_options (plain_document [])"
  let ?b = "[Element ''section'' [] [] None [Element ''p'' [] [] None [Text ''one'']]]"
  let ?s2 = "Element ''section'' [] [''align-center''] None [Element ''p'' [] [] None [Text ''two'']]"
  let ?s3 = "Element ''section'' [] [''align-center''] None
               [Element ''p'' [] [] None [Text ''two'', Text ''three'']]"
  have h1: "list_all (\<lambda>l. \<not> is_destination l) ?ls" by simp
  have h2: "run ?init ?ls = Inr (?init\<lparr>body := ?b, sect := ?s2\<rparr>)"
    by code_simp
  have h3: "run ?init (?ls @ [TextLine False (plain_text ''three'')])
     = Inr (?init\<lparr>body := ?b, sect := ?s3\<rparr>)"
    by code_simp
  have e1: "since_section ?ls = [TextLine False (plain_text ''two'')]"
    by (simp add: since_section_def)
  have e2: "until_section ?ls
      = [TextLine False (plain_text ''one''), TypeLine False (T_SECTION ALIGN_CENTER False)]"
    by (simp add: until_section_def)
  have e3: "last_align ?ls = ALIGN_CENTER" by (simp add: last_align_def)
  note T = body_destination_without_directives[OF h1 h2, of False "plain_text ''three''"]
  from T have c1: "texts (sect (?init\<lparr>body := ?b, sect := ?s2\<rparr>)) = text_fragments (since_section ?ls)"
    by (elim conjE)
  from T have c2: "sum_list (map texts (body (?init\<lparr>body := ?b, sect := ?s2\<rparr>)))
         = sum_list (map texts (title_heading default_options (plain_document [])))
           + text_fragments (until_section ?ls)"
    by (elim conjE)
  from T obtain s' where
    r: "run ?init (?ls @ [TextLine False (plain_text ''three'')]) = Inr s'"
    and t: "texts (sect s') = texts (sect (?init\<lparr>body := ?b, sect := ?s2\<rparr>))
           + mset (split_nl (line_text (plain_text ''three'')))"
    by (elim conjE exE)
  from r h3 have "s' = ?init\<lparr>body := ?b, sect := ?s3\<rparr>" by simp
  with t have c3: "texts ?s3 = texts ?s2 + mset (split_nl ''three'')"
    by (simp add: plain_text_def)
  from c1 have c1': "texts ?s2 = text_fragments [TextLine False (plain_text ''two'')]"
    unfolding e1 by simp
  from c2 have c2': "sum_list (map texts ?b)
     = sum_list (map texts (title_heading default_options (plain_document [])))
       + text_fragments
           [TextLine False (plain_text ''one''), TypeLine False (T_SECTION ALIGN_CENTER False)]"
    unfolding e2 by simp
  from h1 h2 h3 e1 e2 e3 c1' c2' c3 show ?thesis by (intro conjI)
qed

section \<open>Footnote numbering\<close>






lemma anchors_fresh [simp]:
  "anchors cl (add_align al (createElement ''section'')) = {#}"
  "anchors cl (createElement ''section'') = {#}"
  "anchors cl (createElement ''hr'') = {#}"
  by (cases al; simp add: anchors_def add_align_def createElement_def note_anchor_def is_tag_def)+


























section \<open>Tables: what the CELL handler finds\<close>

lemma is_tag_matches: "is_tag t n \<longleftrightarrow> matches [t] n"
  by (auto simp: is_tag_def matches_def split: option.splits)

lemma qslot_from_None:
  "(\<And>k. k \<in> set ks \<Longrightarrow> \<not> has [t] k \<Longrightarrow> querySelector_last_of_type t k = None) \<Longrightarrow>
   (\<forall>k \<in> set ks. \<not> matches [t] k \<and> \<not> has [t] k) \<Longrightarrow> qslot_from t i ks = None"
  by (induction ks arbitrary: i) (auto simp: is_tag_matches)

lemma qslot_None: "\<not> has [t] n \<Longrightarrow> querySelector_last_of_type t n = None"
proof (induction n)
  case (Element tg a c f ks)
  from Element.prems have "\<forall>k \<in> set ks. \<not> matches [t] k \<and> \<not> has [t] k"
    by (simp add: has_Element)
  with Element.IH show ?case by (simp add: qslot_from_None)
qed simp_all

lemma qslot_from_last:
  "(\<forall>k \<in> set ks. \<not> has [t] k) \<Longrightarrow> is_tag t x \<Longrightarrow>
   qslot_from t i (ks @ [x]) = Some [i + length ks]"
proof (induction ks arbitrary: i)
  case Nil
  then show ?case by simp
next
  case (Cons k ks)
  from Cons.prems have "list_ex (is_tag t) (ks @ [x])" by (simp add: list_ex_iff)
  moreover from Cons.prems have "querySelector_last_of_type t k = None" by (simp add: qslot_None)
  ultimately show ?case using Cons.IH[of "Suc i"] Cons.prems by simp
qed

lemma has_table_cell [simp]: "\<not> has sel (table_cell h)"
  by (simp add: table_cell_def)

lemma has_table_row: "has sel (table_row (map table_cell hs)) \<longleftrightarrow> hs \<noteq> [] \<and> (\<exists>h \<in> set hs. matches sel (table_cell h))"
  by (auto simp: table_row_def has_Element)

lemma qsa_cells: "length (qsa_from [''th'', ''td''] i (map table_cell hs)) = length hs"
  by (induction hs arbitrary: i) (auto simp: table_cell_def matches_def)

lemma qsa_rows:
  "length (qsa_from [''th'', ''td''] i (map (\<lambda>hs. table_row (map table_cell hs)) hss))
     = length (concat hss)"
  by (induction hss arbitrary: i) (auto simp: table_row_def matches_def qsa_cells)

lemma cellCount_table_of:
  "length (querySelectorAll [''th'', ''td''] (table_of C hss)) = length (concat hss)"
  by (simp add: table_of_def qsa_rows)

lemma last_row_table_of:
  "querySelector_last_of_type ''tr'' (table_of C hss)
     = (if hss = [] then None else Some [length hss - 1])"
proof (cases hss rule: rev_cases)
  case Nil
  then show ?thesis by (simp add: table_of_def)
next
  case (snoc hss' hs)
  let ?row = "\<lambda>hs. table_row (map table_cell hs)"
  have "\<forall>k \<in> set (map ?row hss'). \<not> has [''tr''] k"
    by (auto simp: has_table_row table_cell_def matches_def)
  moreover have "is_tag ''tr'' (?row hs)" by (simp add: table_row_def is_tag_def)
  ultimately have "qslot_from ''tr'' 0 (map ?row hss' @ [?row hs]) = Some [0 + length (map ?row hss')]"
    by (rule qslot_from_last)
  with snoc show ?thesis by (simp add: table_of_def)
qed

lemma find_table:
  assumes "\<forall>k \<in> set ks. \<not> has [''table''] k"
  shows "querySelector_last_of_type ''table'' (Element tg a c f (ks @ [table_of C hss]))
     = Some [length ks]"
proof -
  have "is_tag ''table'' (table_of C hss)" by (simp add: table_of_def is_tag_def)
  from qslot_from_last[OF assms this, of 0] show ?thesis by simp
qed

lemma appendChild_last:
  "n = length ks \<Longrightarrow> appendChild (n # p) c (Element tg a cl f (ks @ [x]))
     = (case appendChild p c x of
          None \<Rightarrow> None
        | Some (x', q) \<Rightarrow> Some (Element tg a cl f (ks @ [x']), n # q))"
  by (simp split: option.splits)

lemma append_row:
  "appendChild [] (createElement ''tr'') (table_of C hss)
     = Some (Element ''table'' [] [] (Some C)
               (map (\<lambda>hs. table_row (map table_cell hs)) hss @ [createElement ''tr'']),
             [length hss])"
  by (simp add: table_of_def)

lemma cell_destination_table:
  assumes s: "sect s = Element tg a c f (ks @ [table_of C hss])"
    and top: "\<forall>k \<in> set ks. \<not> has [''table''] k"
  shows "cell_destination h s =
     (if hss = [] \<or> (C \<noteq> 0 \<and> length (concat hss) mod C = 0)
      then Inr (s\<lparr>sect := Element tg a c f (ks @ [table_of C (hss @ [[h]])])\<rparr>)
      else if C = 0 then Inl (RangeError, s)
      else Inr (s\<lparr>sect := Element tg a c f (ks @ [table_of C (butlast hss @ [last hss @ [h]])])\<rparr>))"
proof -
  let ?row = "\<lambda>hs. table_row (map table_cell hs)"
  have cell: "createElement (if h then ''th'' else ''td'') = table_cell h"
    by (simp add: createElement_def table_cell_def)
  have ft: "querySelector_last_of_type ''table'' (sect s) = Some [length ks]"
    unfolding s by (rule find_table[OF top])
  have nt: "node_at [length ks] (sect s) = Some (table_of C hss)"
    unfolding s by simp
  have cols: "fltColumns (table_of C hss) = Some C" by (simp add: table_of_def)
  have new: "appendChild [length ks] (createElement ''tr'') (sect s)
      = Some (Element tg a c f (ks @ [Element ''table'' [] [] (Some C) (map ?row hss @ [createElement ''tr''])]),
              [length ks, length hss])"
    unfolding s by (simp add: appendChild_last table_of_def del: appendChild.simps(4))
  have new2: "appendChild [length ks, length hss] (table_cell h)
       (Element tg a c f (ks @ [Element ''table'' [] [] (Some C) (map ?row hss @ [createElement ''tr''])]))
     = Some (Element tg a c f (ks @ [table_of C (hss @ [[h]])]), [length ks, length hss, 0])"
    by (simp add: appendChild_last table_of_def createElement_def table_row_def
        del: appendChild.simps(4))
  show ?thesis
  proof (cases "hss = []")
    case True
    with ft nt cols new new2 show ?thesis
      by (simp add: cell_destination_def Let_def last_row_table_of needs_row_def cell)
  next
    case False
    then obtain hss' hs where hss: "hss = hss' @ [hs]" by (cases hss rule: rev_cases) auto
    have old: "appendChild [length ks, length hss - 1] (table_cell h) (sect s)
        = Some (Element tg a c f (ks @ [table_of C (butlast hss @ [last hss @ [h]])]),
                [length ks, length hss - 1, length hs])"
      unfolding s hss
      by (simp add: appendChild_last table_of_def table_row_def del: appendChild.simps(4))
    show ?thesis
    proof (cases "C = 0")
      case True
      with False ft nt cols show ?thesis
        by (simp add: cell_destination_def Let_def last_row_table_of needs_row_def cellCount_table_of)
    next
      case C: False
      show ?thesis
      proof (cases "length (concat hss) mod C = 0")
        case True
        with False C ft nt cols new new2 show ?thesis
          by (simp add: cell_destination_def Let_def last_row_table_of needs_row_def
              cellCount_table_of cell)
      next
        case m: False
        with False C ft nt cols old show ?thesis
          by (simp add: cell_destination_def Let_def last_row_table_of needs_row_def
              cellCount_table_of cell)
      qed
    qed
  qed
qed

section \<open>Rows of a given length\<close>

lemma chunks_Nil [simp]: "chunks C [] = []"
  by (simp add: chunks.simps)

lemma chunks_eq_Nil: "0 < C \<Longrightarrow> chunks C xs = [] \<longleftrightarrow> xs = []"
  by (subst chunks.simps) simp

lemma concat_chunks: "0 < C \<Longrightarrow> concat (chunks C xs) = xs"
proof (induction C xs rule: chunks.induct)
  case (1 C xs)
  then show ?case by (subst chunks.simps) simp
qed

lemma chunks_snoc:
  "0 < C \<Longrightarrow> chunks C (xs @ [x]) =
     (if length xs mod C = 0 then chunks C xs @ [[x]]
      else butlast (chunks C xs) @ [last (chunks C xs) @ [x]])"
proof (induction C xs rule: chunks.induct)
  case (1 C xs)
  show ?case
  proof (cases "xs = []")
    case True
    with "1.prems" show ?thesis by (simp add: chunks.simps[of C "[x]"])
  next
    case False
    note ne = this
    show ?thesis
    proof (cases "length xs < C")
      case True
      with ne "1.prems" show ?thesis
        by (simp add: chunks.simps[of C "xs @ [x]"] chunks.simps[of C xs])
    next
      case False
      then have ge: "C \<le> length xs" by simp
      let ?d = "drop C xs"
      have m: "length ?d mod C = length xs mod C" using ge by (simp add: le_mod_geq)
      from "1.IH" "1.prems" ne have ih: "chunks C (?d @ [x]) =
         (if length ?d mod C = 0 then chunks C ?d @ [[x]]
          else butlast (chunks C ?d) @ [last (chunks C ?d) @ [x]])" by simp
      have c1: "chunks C (xs @ [x]) = take C xs # chunks C (?d @ [x])"
        using ge "1.prems" by (simp add: chunks.simps[of C "xs @ [x]"])
      have c2: "chunks C xs = take C xs # chunks C ?d"
        using ne "1.prems" by (simp add: chunks.simps[of C xs])
      show ?thesis
      proof (cases "length xs mod C = 0")
        case True
        with c1 c2 ih m show ?thesis by simp
      next
        case False
        with m have "?d \<noteq> []" by auto
        with "1.prems" have "chunks C ?d \<noteq> []" by (simp add: chunks_eq_Nil)
        with c1 c2 ih m False show ?thesis by simp
      qed
    qed
  qed
qed

lemma chunks_lengths:
  "0 < C \<Longrightarrow> map length (chunks C xs) =
     replicate (length xs div C) C @ (if length xs mod C = 0 then [] else [length xs mod C])"
proof (induction C xs rule: chunks.induct)
  case (1 C xs)
  show ?case
  proof (cases "xs = []")
    case True
    then show ?thesis by simp
  next
    case False
    note ne = this
    show ?thesis
    proof (cases "length xs < C")
      case True
      with ne "1.prems" show ?thesis by (simp add: chunks.simps[of C xs])
    next
      case False
      then have ge: "C \<le> length xs" by simp
      from "1.IH" "1.prems" ne have ih: "map length (chunks C (drop C xs)) =
         replicate (length (drop C xs) div C) C
         @ (if length (drop C xs) mod C = 0 then [] else [length (drop C xs) mod C])" by simp
      have d: "length xs div C = Suc ((length xs - C) div C)"
        using ge "1.prems" by (simp add: le_div_geq)
      have m: "(length xs - C) mod C = length xs mod C" using ge by (simp add: le_mod_geq)
      from ne "1.prems" ge ih d m show ?thesis by (simp add: chunks.simps[of C xs])
    qed
  qed
qed

section \<open>A table and the CELL directives after it\<close>

lemma table_line_on_section:
  assumes ok: "ctx_ok s"
  shows "\<exists>tg a c f ks s1. sect s = Element tg a c f ks \<and> (\<forall>k \<in> set ks. \<not> has [''table''] k)
     \<and> step s (TypeLine r (T_TABLE C)) = Inr s1
     \<and> sect s1 = Element tg a c f (ks @ [table_of C []])"
proof -
  from ok have t: "is_tag ''section'' (sect s)" "tables_top (sect s)"
    by (simp_all add: ctx_ok_def sect_ok_def)
  then obtain tg a c f ks where e: "sect s = Element tg a c f ks"
    by (cases "sect s") (auto simp: is_tag_def)
  with t(2) have top: "\<forall>k \<in> set ks. \<not> has [''table''] k"
    by (simp add: tables_top_def list_all_iff)
  from e have "step s (TypeLine r (T_TABLE C))
      = Inr ((if r then reset s else s)\<lparr>sect := Element tg a c f (ks @ [table_of C []])\<rparr>)"
    by (cases r) (simp_all add: table_line_def append_to_sect_def reset_def table_of_def)
  with e top show ?thesis by auto
qed

lemma rows_count_aux:
  fixes C q m :: nat
  assumes "0 < C" "m < C"
  shows "(q * C + m + C - 1) div C = q + (if m = 0 then 0 else 1)"
proof (cases "m = 0")
  case True
  have "q * C + C - 1 = (C - 1) + q * C" using assms by simp
  then have "(q * C + C - 1) div C = (C - 1) div C + q" using assms by (simp only: div_mult_self1)
  with True assms show ?thesis by simp
next
  case False
  have "q * C + m + C - 1 = (m - 1) + (q + 1) * C" using False by (simp add: algebra_simps)
  then have "(q * C + m + C - 1) div C = (m - 1) div C + (q + 1)"
    using assms by (simp only: div_mult_self1)
  moreover have "(m - 1) div C = 0" using assms by simp
  ultimately show ?thesis using False by simp
qed

lemma rows_count:
  fixes C K :: nat
  assumes "0 < C"
  shows "(K + C - 1) div C = K div C + (if K mod C = 0 then 0 else 1)"
  using rows_count_aux[OF assms, of "K mod C" "K div C"] assms by simp

lemma table_of_rows:
  "table_of C hss = Element ''table'' [] [] (Some C)
      (map (\<lambda>hs. Element ''tr'' [] [] None (map table_cell hs)) hss)"
  by (simp add: table_of_def table_row_def)

text \<open>A table of column count 0 and two CELL directives right after it.\<close>

lemma zero_columns_consecutive:
  assumes "run (init_ctx opts d) pre = Inr s"
  shows "\<exists>s1 older.
      run (init_ctx opts d) (pre @ [TypeLine r (T_TABLE 0), cell_line (r1, h1)]) = Inr s1
    \<and> childNodes (sect s1)
        = older @ [Element ''table'' [] [] (Some 0) [Element ''tr'' [] [] None [table_cell h1]]]
    \<and> run (init_ctx opts d)
        (pre @ [TypeLine r (T_TABLE 0), cell_line (r1, h1), cell_line (r2, h2)])
        = Inl (RangeError, (if r2 then reset s1 else s1)\<lparr>link := None\<rparr>)"
proof -
  from table_line_on_section[OF reachable_ok[OF assms], of r 0] obtain tg a c f ks s0 where
    top: "\<forall>k \<in> set ks. \<not> has [''table''] k"
    and s0: "step s (TypeLine r (T_TABLE 0)) = Inr s0"
      "sect s0 = Element tg a c f (ks @ [table_of 0 []])" by blast
  let ?s0 = "(if r1 then reset s0 else s0)\<lparr>link := None\<rparr>"
  have e0: "sect ?s0 = Element tg a c f (ks @ [table_of 0 []])" using s0(2) by (simp add: reset_def)
  from cell_destination_table[OF e0 top, of h1]
  have c1: "cell_destination h1 ?s0
      = Inr (?s0\<lparr>sect := Element tg a c f (ks @ [table_of 0 [[h1]]])\<rparr>)" by simp
  let ?s1 = "?s0\<lparr>sect := Element tg a c f (ks @ [table_of 0 [[h1]]]), dest := D_CELL\<rparr>"
  from c1 have st1: "step s0 (cell_line (r1, h1)) = Inr ?s1"
    by (simp add: cell_line_def destination_line_def)
  let ?s2 = "(if r2 then reset ?s1 else ?s1)\<lparr>link := None\<rparr>"
  have e1: "sect ?s2 = Element tg a c f (ks @ [table_of 0 [[h1]]])" by (simp add: reset_def)
  from cell_destination_table[OF e1 top, of h2]
  have c2: "cell_destination h2 ?s2 = Inl (RangeError, ?s2)" by simp
  then have st2: "step ?s1 (cell_line (r2, h2)) = Inl (RangeError, ?s2)"
    by (simp add: cell_line_def destination_line_def)
  have r1: "run (init_ctx opts d) (pre @ [TypeLine r (T_TABLE 0), cell_line (r1, h1)]) = Inr ?s1"
    using assms s0(1) st1 by (simp add: run_append)
  have r2: "run (init_ctx opts d)
        (pre @ [TypeLine r (T_TABLE 0), cell_line (r1, h1), cell_line (r2, h2)])
        = Inl (RangeError, ?s2)"
    using assms s0(1) st1 st2 by (simp add: run_append)
  have k: "childNodes (sect ?s1)
        = ks @ [Element ''table'' [] [] (Some 0) [Element ''tr'' [] [] None [table_cell h1]]]"
    by (simp add: table_of_rows)
  from r1 r2 k show ?thesis by blast
qed


section \<open>Children that are no part of a table\<close>

lemma has_mono: "has sel n \<Longrightarrow> set sel \<subseteq> set sel' \<Longrightarrow> has sel' n"
proof (induction n)
  case (Element t a c f ks)
  from Element.prems(1) obtain k where k: "k \<in> set ks" "matches sel k \<or> has sel k"
    by (auto simp: has_Element)
  from k(2) Element.IH[OF k(1)] Element.prems(2) have "matches sel' k \<or> has sel' k"
    by (auto simp: matches_def split: option.splits)
  with k(1) show ?case by (auto simp: has_Element)
qed simp_all

lemma cell_shape_appendChild:
  assumes "appendChild p c cell = Some (cell', q)" "no_table_parts c" "cell_shape cell h"
  shows "cell_shape cell' h"
  using assms has_appendChild[OF assms(1), of "[''table'', ''tr'', ''th'', ''td'']"]
    appendChild_tagName[OF assms(1)]
  by (simp add: cell_shape_def no_table_parts_def is_tag_def)

lemma list_all2_update_one:
  "list_all2 P xs ys \<Longrightarrow> i < length xs \<Longrightarrow> P x (ys ! i) \<Longrightarrow> list_all2 P (xs[i := x]) ys"
  by (auto simp: list_all2_conv_all_nth nth_list_update)

lemma row_shape_appendChild:
  assumes a: "appendChild (x # p) c row = Some (row', q)" and c: "no_table_parts c"
    and r: "row_shape row hs"
  shows "row_shape row' hs"
proof (cases row)
  case (Element tg at cl f cells)
  with a obtain c' q' where
    x: "x < length cells" and k: "appendChild p c (cells ! x) = Some (c', q')"
    and r': "row' = Element tg at cl f (cells[x := c'])"
    by (auto split: if_splits option.splits)
  from r Element have l: "list_all2 cell_shape cells hs" and tr: "tg = ''tr''"
    by (simp_all add: row_shape_def is_tag_def)
  from l x have "cell_shape (cells ! x) (hs ! x)" by (simp add: list_all2_conv_all_nth)
  from cell_shape_appendChild[OF k c this] have "cell_shape c' (hs ! x)" .
  from list_all2_update_one[OF l x this] r' tr show ?thesis
    by (simp add: row_shape_def is_tag_def)
qed (use a in auto)

lemma table_shape_appendChild:
  assumes a: "appendChild p c tb = Some (tb', q)" and c: "no_table_parts c"
    and n: "node_at p tb = Some n" "\<not> matches [''table'', ''tr''] n"
    and t: "table_shape C hss tb"
  shows "table_shape C hss tb'"
proof (cases tb)
  case (Element tg at cl f rows)
  from t Element have l: "list_all2 row_shape rows hss" and tg: "tg = ''table''" and f: "f = Some C"
    by (simp_all add: table_shape_def is_tag_def)
  show ?thesis
  proof (cases p)
    case Nil
    with n Element tg show ?thesis by (auto simp: matches_def)
  next
    case (Cons m p')
    with a Element obtain r' q' where
      m: "m < length rows" and k: "appendChild p' c (rows ! m) = Some (r', q')"
      and tb': "tb' = Element tg at cl f (rows[m := r'])"
      by (auto split: if_splits option.splits)
    from l m have rs: "row_shape (rows ! m) (hss ! m)" by (simp add: list_all2_conv_all_nth)
    from n Cons Element m have n': "node_at p' (rows ! m) = Some n" by simp
    have "row_shape r' (hss ! m)"
    proof (cases p')
      case Nil
      with n' n(2) rs show ?thesis by (simp add: row_shape_def is_tag_def matches_def)
    next
      case (Cons x p'')
      with k row_shape_appendChild[OF _ c rs] show ?thesis by simp
    qed
    from list_all2_update_one[OF l m this] tb' tg f show ?thesis
      by (simp add: table_shape_def is_tag_def)
  qed
qed (use t in \<open>auto simp: table_shape_def is_tag_def\<close>)

lemma last_table_appendChild:
  assumes a: "appendChild p c t = Some (t', q)" and c: "no_table_parts c"
    and n: "node_at p t = Some n" "\<not> matches [''table'', ''tr''] n"
    and l: "last_table i C hss t"
  shows "last_table i C hss t'"
proof (cases t)
  case (Element tg at cl f ks)
  from l Element have i: "i < length ks" and ts: "table_shape C hss (ks ! i)"
    and later: "\<And>j. j < length ks \<Longrightarrow> i < j \<Longrightarrow> \<not> is_tag ''table'' (ks ! j)"
    by (simp_all add: last_table_def)
  from c have nc: "\<not> is_tag ''table'' c"
    by (auto simp: no_table_parts_def is_tag_def matches_def)
  show ?thesis
  proof (cases p)
    case Nil
    with a Element have t': "t' = Element tg at cl f (ks @ [c])" by simp
    show ?thesis unfolding t' last_table_def using i ts later nc
      by (auto simp: nth_append)
  next
    case (Cons j p')
    with a Element obtain k' q' where
      j: "j < length ks" and k: "appendChild p' c (ks ! j) = Some (k', q')"
      and t': "t' = Element tg at cl f (ks[j := k'])"
      by (auto split: if_splits option.splits)
    from appendChild_tagName[OF k] have tag: "is_tag ''table'' k' = is_tag ''table'' (ks ! j)"
      by (simp add: is_tag_def)
    show ?thesis
    proof (cases "j = i")
      case True
      from n Cons Element j True have "node_at p' (ks ! i) = Some n" by simp
      from table_shape_appendChild[OF _ c this n(2) ts] k True
      have "table_shape C hss k'" by simp
      with i later True show ?thesis unfolding t' last_table_def
        by (auto simp: nth_list_update)
    next
      case False
      have "\<not> is_tag ''table'' (ks[j := k'] ! m)" if "m < length ks" "i < m" for m
      proof (cases "m = j")
        case True
        with that tag later[of j] j show ?thesis by simp
      next
        case False
        with that later[of m] show ?thesis by simp
      qed
      with i ts False show ?thesis unfolding t' last_table_def by simp
    qed
  qed
qed (use l in \<open>auto simp: last_table_def\<close>)

lemma fills_last_table: "fills t t' \<Longrightarrow> last_table i C hss t \<Longrightarrow> last_table i C hss t'"
proof (induction rule: fills.induct)
  case (fills_refl t)
  then show ?case .
next
  case (fills_step t t1 p n c t2 q)
  from last_table_appendChild[OF fills_step.hyps(5,4,2,3)] fills_step.IH fills_step.prems
  show ?case by simp
qed

lemma fills_no_table: "fills t t' \<Longrightarrow> \<not> has [''table''] t \<Longrightarrow> \<not> has [''table''] t'"
proof (induction rule: fills.induct)
  case (fills_refl t)
  then show ?case .
next
  case (fills_step t t1 p n c t2 q)
  from fills_step.hyps(4) have "\<not> matches [''table''] c" "\<not> has [''table''] c"
    by (auto simp: no_table_parts_def matches_def dest: has_mono[where sel' = "[''table'', ''tr'', ''th'', ''td'']"] split: option.splits)
  with has_appendChild[OF fills_step.hyps(5), of "[''table'']"] fills_step.IH fills_step.prems
  show ?case by simp
qed

lemma fills_trans: "fills t1 t2 \<Longrightarrow> fills t t1 \<Longrightarrow> fills t t2"
  by (induction rule: fills.induct) (auto intro: fills.intros)

lemma fills_appendChild:
  "node_at p t = Some n \<Longrightarrow> \<not> matches [''table'', ''tr''] n \<Longrightarrow> no_table_parts c \<Longrightarrow>
   appendChild p c t = Some (t', q) \<Longrightarrow> fills t t'"
  by (rule fills_step[OF fills_refl])

section \<open>The handlers that fill the section\<close>

lemma no_table_parts_Element:
  "no_table_parts (Element t a c f ks) \<longleftrightarrow>
     t \<notin> {''table'', ''tr'', ''th'', ''td''} \<and> (\<forall>k \<in> set ks. no_table_parts k)"
  by (auto simp: no_table_parts_def has_Element matches_def)

lemma no_table_parts_Text [simp]: "no_table_parts (Text s)"
  by (simp add: no_table_parts_def matches_def)

lemma section_no_table: "is_tag ''section'' t \<Longrightarrow> \<not> matches [''table'', ''tr''] t"
  by (auto simp: is_tag_def matches_def)

lemma last_child_or_new_fills:
  assumes "last_child_or_new tg s = Inr (s1, p)" "is_tag ''section'' (sect s)"
    "tg \<notin> {''table'', ''tr'', ''th'', ''td''}"
  shows "fills (sect s) (sect s1)"
proof -
  from last_child_or_new_trace[OF assms(1)] consider "sect s1 = sect s"
    | q where "appendChild [] (createElement tg) (sect s) = Some (sect s1, q)" by blast
  then show ?thesis
  proof cases
    case 1
    then show ?thesis by (simp add: fills_refl)
  next
    case 2
    have "no_table_parts (createElement tg)"
      using assms(3) by (simp add: createElement_def no_table_parts_Element)
    from fills_appendChild[OF _ section_no_table[OF assms(2)] this 2] show ?thesis by simp
  qed
qed

lemma destEl_fills:
  assumes d: "destEl s = Inr (s1, p)" and sec: "is_tag ''section'' (sect s)"
  shows "fills (sect s) (sect s1)"
proof (cases "dest s")
  case D_BODY
  with d last_child_or_new_fills[of "''p''" s s1 p] sec show ?thesis by (simp add: destEl_def)
next
  case D_NOTE
  from destEl_NOTE[OF this d] show ?thesis by (simp add: fills_refl)
next
  case D_CELL
  from destEl_CELL[OF this d] show ?thesis by (simp add: fills_refl)
next
  case D_HEAD
  with d last_child_or_new_fills[of "''h2''" s s1 p] sec show ?thesis by (simp add: destEl_def)
qed

lemma destEl_tag:
  assumes "destEl s = Inr (s1, p)"
  shows "\<exists>n. node_at p (sect s1) = Some n \<and> \<not> matches [''table'', ''tr''] n"
proof (cases "dest s")
  case D_BODY
  with assms show ?thesis
    by (auto simp: destEl_def is_tag_def matches_def dest!: last_child_or_new_valid)
next
  case D_NOTE
  from destEl_NOTE[OF this assms] obtain np nt pp where
    np: "last_of (querySelectorAll [''aside'', ''notAnElement''] (sect s)) = Some np"
    and nt: "node_at np (sect s) = Some nt"
    and pp: "last_of (querySelectorAll [''p'', ''notAnElement''] nt) = Some pp"
    and eq: "s1 = s" "p = np @ pp"
    by blast
  from qsa_sound[OF last_of_Some[OF pp]] obtain n where
    "node_at pp nt = Some n" "matches [''p'', ''notAnElement''] n" by blast
  with nt eq show ?thesis by (auto simp: node_at_append matches_def split: option.splits)
next
  case D_CELL
  from destEl_CELL[OF this assms] obtain cp cell where
    cp: "last_of (querySelectorAll [''th'', ''td''] (sect s)) = Some cp"
    and cell: "node_at cp (sect s) = Some cell"
    and res: "p = cp @ (case last_of (querySelectorAll [''aside'', ''p''] cell) of
                          None \<Rightarrow> [] | Some cont \<Rightarrow> cont)"
    and eq: "s1 = s"
    by blast
  from qsa_sound[OF last_of_Some[OF cp]] cell have ct: "matches [''th'', ''td''] cell"
    by fastforce
  show ?thesis
  proof (cases "last_of (querySelectorAll [''aside'', ''p''] cell)")
    case None
    with cell ct eq res show ?thesis by (auto simp: matches_def split: option.splits)
  next
    case (Some cont)
    from qsa_sound[OF last_of_Some[OF Some]] obtain n where
      "node_at cont cell = Some n" "matches [''aside'', ''p''] n" by blast
    with cell Some res eq show ?thesis
      by (auto simp: node_at_append matches_def split: option.splits)
  qed
next
  case D_HEAD
  with assms show ?thesis
    by (auto simp: destEl_def is_tag_def matches_def dest!: last_child_or_new_valid)
qed

lemma append_at_dest_fills:
  assumes a: "append_at_dest c s = Inr (s1, q)" and sec: "is_tag ''section'' (sect s)"
    and c: "no_table_parts c"
  shows "fills (sect s) (sect s1)"
proof -
  from append_at_dest_InrE[OF a] obtain s0 p where
    d: "destEl s = Inr (s0, p)" and ap: "appendChild p c (sect s0) = Some (sect s1, q)"
    by blast
  from destEl_tag[OF d] obtain n where
    n: "node_at p (sect s0) = Some n" "\<not> matches [''table'', ''tr''] n" by blast
  from fills_appendChild[OF n c ap] destEl_fills[OF d sec] show ?thesis
    by (rule fills_trans)
qed

lemma closest_sound:
  "closest sel root p k = Some c \<Longrightarrow> \<exists>n. node_at c root = Some n \<and> matches sel n"
  by (induction k) (auto split: option.splits if_splits)

lemma paragraph_fills:
  assumes p: "paragraph_line al s = Inr s'" and sec: "is_tag ''section'' (sect s)"
  shows "fills (sect s) (sect s') \<and> body s' = body s"
proof -
  from p obtain s1 p cont t q where
    d: "destEl (s\<lparr>link := None\<rparr>) = Inr (s1, p)"
    and cl: "closest [''aside'', ''td'', ''th'', ''section''] (sect s1) p (length p) = Some cont"
    and a: "appendChild cont (add_align al (createElement ''p'')) (sect s1) = Some (t, q)"
    and e: "s' = s1\<lparr>sect := t\<rparr>"
    by (auto simp: paragraph_line_def split: sum.splits option.splits prod.splits)
  from closest_sound[OF cl] obtain n where
    n: "node_at cont (sect s1) = Some n" "\<not> matches [''table'', ''tr''] n"
    by (auto simp: matches_def split: option.splits)
  have c: "no_table_parts (add_align al (createElement ''p''))"
    by (cases al) (simp_all add: add_align_def createElement_def no_table_parts_Element)
  from destEl_fills[OF d] sec have "fills (sect s) (sect s1)" by simp
  with fills_appendChild[OF n c a] have "fills (sect s) t" by (rule fills_trans)
  with e destEl_frame[OF d] show ?thesis by simp
qed

lemma link_fills:
  assumes l: "link_line c s = Inr s'" and sec: "is_tag ''section'' (sect s)"
  shows "fills (sect s) (sect s') \<and> body s' = body s"
proof -
  let ?a = "use_hint (hint s) (setAttribute ''href'' (js_string c) (createElement ''a''))"
  from l obtain s1 q where
    a: "append_at_dest ?a s = Inr (s1, q)"
    and e: "s' = s1\<lparr>link := Some q, hint := clear_hint (hint s)\<rparr>"
    by (auto simp: link_line_def split: sum.splits prod.splits)
  have "no_table_parts ?a" by (simp add: use_hint_def createElement_def no_table_parts_Element)
  from append_at_dest_fills[OF a sec this] append_at_dest_frame[OF a] e show ?thesis by simp
qed

lemma anchor_fills:
  assumes l: "anchor_line c s = Inr s'" and sec: "is_tag ''section'' (sect s)"
  shows "fills (sect s) (sect s') \<and> body s' = body s"
proof -
  let ?a = "setAttribute ''name'' (js_string c) (createElement ''a'')"
  from l obtain q where a: "append_at_dest ?a s = Inr (s', q)"
    by (auto simp: anchor_line_def split: sum.splits prod.splits)
  have "no_table_parts ?a" by (simp add: createElement_def no_table_parts_Element)
  from append_at_dest_fills[OF a sec this] append_at_dest_frame[OF a] show ?thesis by simp
qed

lemma image_fills:
  assumes l: "image_line c s = Inr s'" and sec: "is_tag ''section'' (sect s)"
  shows "fills (sect s) (sect s') \<and> body s' = body s"
proof -
  from l obtain s1 q src where
    a: "append_at_dest (createElement ''img'') s = Inr (s1, q)"
    and si: "set_image q src s1 = Inr s'"
    by (auto simp: image_line_def split: sum.splits prod.splits if_splits option.splits)
  from append_at_dest_InrE[OF a] obtain s0 p where
    d: "destEl s = Inr (s0, p)"
    and ap: "appendChild p (createElement ''img'') (sect s0) = Some (sect s1, q)"
    by blast
  let ?g = "\<lambda>img. use_hint (hint s1) (setAttribute ''src'' src img)"
  from appendChild_then_update[OF ap, of ?g] obtain t2 where
    u: "update_at q ?g (sect s1) = Some t2"
    and a2: "appendChild p (?g (createElement ''img'')) (sect s0) = Some (t2, q)" by blast
  from si u have e: "s' = s1\<lparr>sect := t2, hint := clear_hint (hint s1)\<rparr>"
    by (simp add: set_image_def)
  have c: "no_table_parts (?g (createElement ''img''))"
    by (simp add: use_hint_def createElement_def no_table_parts_Element)
  from destEl_tag[OF d] obtain n where
    n: "node_at p (sect s0) = Some n" "\<not> matches [''table'', ''tr''] n" by blast
  from fills_appendChild[OF n c a2] destEl_fills[OF d sec] have "fills (sect s) t2"
    by (rule fills_trans)
  with e append_at_dest_frame[OF a] show ?thesis by simp
qed

lemma note_fills:
  assumes l: "note_destination s = Inr s'" and sec: "is_tag ''section'' (sect s)"
  shows "fills (sect s) (sect s') \<and> body s' = body s"
proof -
  let ?n = "noteIndex s"
  let ?aside = "Element ''aside'' [] [] None [from_note ?n, createElement ''p'']"
  from l obtain s1 q1 s2 np t3 q3 t4 q4 where
    a1: "append_at_dest (to_note ?n) s = Inr (s1, q1)"
    and a2: "append_to_sect (createElement ''aside'') s1 = Inr (s2, np)"
    and a3: "appendChild np (from_note ?n) (sect s2) = Some (t3, q3)"
    and a4: "appendChild np (createElement ''p'') t3 = Some (t4, q4)"
    and e: "s' = s2\<lparr>sect := t4, noteIndex := Suc ?n\<rparr>"
    by (auto simp: note_destination_def split: sum.splits prod.splits option.splits)
  from append_to_sect_InrE[OF a2] have
    b: "appendChild [] (createElement ''aside'') (sect s1) = Some (sect s2, np)" by simp
  have c1: "appendChild [] (from_note ?n) (createElement ''aside'')
      = Some (Element ''aside'' [] [] None [from_note ?n], [0])"
    by (simp add: createElement_def)
  from appendChild_then_append[OF b c1] a3 have
    b2: "appendChild [] (Element ''aside'' [] [] None [from_note ?n]) (sect s1) = Some (t3, np)"
    by simp
  have c2: "appendChild [] (createElement ''p'') (Element ''aside'' [] [] None [from_note ?n])
      = Some (?aside, [1])"
    by simp
  from appendChild_then_append[OF b2 c2] a4 have
    b3: "appendChild [] ?aside (sect s1) = Some (t4, np)"
    by simp
  have "no_table_parts (to_note ?n)"
    by (simp add: to_note_def createElement_def no_table_parts_Element)
  from append_at_dest_fills[OF a1 sec this] have f1: "fills (sect s) (sect s1)" .
  from append_at_dest_InrE[OF a1] obtain s0 p where
    d: "destEl s = Inr (s0, p)" and ap: "appendChild p (to_note ?n) (sect s0) = Some (sect s1, q1)"
    by blast
  have sec1: "is_tag ''section'' (sect s1)"
    using sec appendChild_tagName[OF ap] destEl_grows[OF d] grows_node_at[of "sect s" "sect s0" "[]" "sect s"]
    by (auto simp: is_tag_def)
  have "no_table_parts ?aside"
    by (simp add: from_note_def createElement_def no_table_parts_Element)
  from fills_appendChild[OF _ section_no_table[OF sec1] this b3] have "fills (sect s1) t4" by simp
  from this f1 have "fills (sect s) t4" by (rule fills_trans)
  with e append_at_dest_frame[OF a1] append_to_sect_frame[OF a2] show ?thesis by simp
qed

lemma append_children_fills:
  "append_children p nodes t = Some t' \<Longrightarrow> node_at p t = Some n \<Longrightarrow>
   \<not> matches [''table'', ''tr''] n \<Longrightarrow> list_all no_table_parts nodes \<Longrightarrow> fills t t'"
proof (induction nodes arbitrary: t n)
  case Nil
  then show ?case by (simp add: fills_refl)
next
  case (Cons c nodes)
  from Cons.prems(1) obtain t1 q where
    a: "appendChild p c t = Some (t1, q)" and r: "append_children p nodes t1 = Some t'"
    by (auto simp: append_children_Cons split: option.splits)
  from node_at_appendChild[OF a Cons.prems(2)] Cons.prems(3) obtain n1 where
    n1: "node_at p t1 = Some n1" "\<not> matches [''table'', ''tr''] n1"
    by (auto simp: matches_def)
  from Cons.prems(4) have c: "no_table_parts c" "list_all no_table_parts nodes" by simp_all
  from Cons.IH[OF r n1 c(2)] fills_appendChild[OF Cons.prems(2,3) c(1) a]
  show ?case by (rule fills_trans)
qed

lemma fragment_nodes_no_table: "list_all no_table_parts (fragment_nodes fs)"
  by (induction fs rule: fragment_nodes.induct) (simp_all add: no_table_parts_Element)

lemma nesting_no_table:
  "list_all no_table_parts kids \<Longrightarrow> list_all no_table_parts (nesting l kids)"
  by (simp add: nesting_def wrapped_def no_table_parts_Element list_all_iff)

lemma text_line_fills:
  assumes ok: "ctx_ok s" and st: "step s (TextLine r l) = Inr s'"
  shows "fills (sect s) (sect s') \<and> body s' = body s"
proof -
  let ?s = "if r then reset s else s"
  have ok': "ctx_ok ?s" using ok by (rule ctx_ok_reset)
  then have sec: "is_tag ''section'' (sect ?s)" by (simp add: ctx_ok_def sect_ok_def)
  from st text_line_refines[of s r l] obtain s1 out0 t' where
    d: "destEl ?s = Inr (s1, out0)"
    and a: "append_children (insertion_point (link s1) out0)
          (nesting l (fragment_nodes (split_nl (line_text l)))) (sect s1) = Some t'"
    and e: "s' = s1\<lparr>sect := t'\<rparr>"
    by (auto split: sum.splits option.splits prod.splits)
  have "\<exists>n. node_at (insertion_point (link s1) out0) (sect s1) = Some n
      \<and> \<not> matches [''table'', ''tr''] n"
  proof (cases "link s1")
    case None
    with destEl_tag[OF d] show ?thesis by (simp add: insertion_point_def)
  next
    case (Some lk)
    with destEl_frame[OF d] have l: "link ?s = Some lk" by simp
    with ok' obtain n where "node_at lk (sect ?s) = Some n" "is_tag ''a'' n"
      by (auto simp: ctx_ok_def split: option.splits)
    with grows_node_at[OF destEl_grows[OF d], of lk n] obtain n' where
      "node_at lk (sect s1) = Some n'" "\<not> matches [''table'', ''tr''] n'"
      by (auto simp: is_tag_def matches_def)
    with Some destEl_tag[OF d] show ?thesis by (auto simp: insertion_point_def)
  qed
  then obtain n where
    n: "node_at (insertion_point (link s1) out0) (sect s1) = Some n"
       "\<not> matches [''table'', ''tr''] n" by blast
  from append_children_fills[OF a n nesting_no_table[OF fragment_nodes_no_table]]
  have "fills (sect s1) t'" .
  from this destEl_fills[OF d sec] have "fills (sect ?s) t'" by (rule fills_trans)
  with e destEl_frame[OF d] show ?thesis by (cases r) (simp_all add: reset_def)
qed

section \<open>The CELL handler on a table whose cells are filled\<close>

lemma qslot_from_found:
  assumes "i < length ks" "is_tag t (ks ! i)"
    "\<forall>j < length ks. i < j \<longrightarrow> \<not> is_tag t (ks ! j)" "\<forall>k \<in> set ks. \<not> has [t] k"
  shows "qslot_from t n ks = Some [n + i]"
  using assms
proof (induction ks arbitrary: n i)
  case Nil
  then show ?case by simp
next
  case (Cons k ks)
  show ?case
  proof (cases i)
    case 0
    from Cons.prems(3) 0 have "\<forall>j < length ks. \<not> is_tag t (ks ! j)" by auto
    then have "\<not> list_ex (is_tag t) ks" by (auto simp: list_ex_iff in_set_conv_nth)
    with Cons.prems(2) 0 show ?thesis by simp
  next
    case (Suc i')
    with Cons.prems have i': "i' < length ks" "is_tag t (ks ! i')"
      "\<forall>j < length ks. i' < j \<longrightarrow> \<not> is_tag t (ks ! j)" "\<forall>k \<in> set ks. \<not> has [t] k"
      by auto
    from i'(1,2) have "list_ex (is_tag t) ks" by (auto simp: list_ex_iff)
    moreover from Cons.prems(4) have "querySelector_last_of_type t k = None"
      by (simp add: qslot_None)
    ultimately show ?thesis using Cons.IH[OF i', of "Suc n"] Suc by simp
  qed
qed

lemma cell_shape_count:
  "list_all2 cell_shape cells hs \<Longrightarrow> length (qsa_from [''th'', ''td''] n cells) = length hs"
proof (induction arbitrary: n rule: list_all2_induct)
  case Nil
  then show ?case by simp
next
  case (Cons c h cells hs)
  from Cons.hyps(1) have m: "matches [''th'', ''td''] c"
    by (auto simp: cell_shape_def cell_tag_def is_tag_def matches_def split: if_splits)
  from Cons.hyps(1) have "\<not> has [''th'', ''td''] c"
    by (auto simp: cell_shape_def dest: has_mono[where sel' = "[''table'', ''tr'', ''th'', ''td'']"])
  then have "querySelectorAll [''th'', ''td''] c = []" by (simp add: has_def)
  with m Cons.IH[of "Suc n"] show ?case by simp
qed

lemma row_shape_count:
  "row_shape r hs \<Longrightarrow>
   \<not> matches [''th'', ''td''] r \<and> length (querySelectorAll [''th'', ''td''] r) = length hs"
  by (cases r) (auto simp: row_shape_def is_tag_def matches_def cell_shape_count)

lemma table_shape_count:
  "list_all2 row_shape rows hss \<Longrightarrow>
   length (qsa_from [''th'', ''td''] n rows) = length (concat hss)"
proof (induction arbitrary: n rule: list_all2_induct)
  case Nil
  then show ?case by simp
next
  case (Cons r hs rows hss)
  from row_shape_count[OF Cons.hyps(1)] Cons.IH[of "Suc n"] show ?case by simp
qed

lemma row_no_tr: "row_shape r hs \<Longrightarrow> \<not> has [''tr''] r"
proof (cases r)
  case (Element tg a c f cells)
  assume "row_shape r hs"
  with Element have l: "list_all2 cell_shape cells hs" by (simp add: row_shape_def)
  have "\<not> matches [''tr''] k \<and> \<not> has [''tr''] k" if "k \<in> set cells" for k
  proof -
    from that l obtain h where "cell_shape k h"
      by (auto simp: list_all2_conv_all_nth in_set_conv_nth)
    then show ?thesis
      by (auto simp: cell_shape_def cell_tag_def is_tag_def matches_def
          dest: has_mono[where sel' = "[''table'', ''tr'', ''th'', ''td'']"] split: if_splits)
  qed
  with Element show ?thesis by (auto simp: has_Element)
qed simp_all

lemma last_row_shape:
  assumes "list_all2 row_shape rows hss"
  shows "qslot_from ''tr'' 0 rows = (if hss = [] then None else Some [length hss - 1])"
proof (cases "hss = []")
  case True
  with assms show ?thesis by simp
next
  case False
  from assms have len: "length rows = length hss" by (rule list_all2_lengthD)
  with False have i: "length hss - 1 < length rows" by (cases hss) auto
  from assms have all: "\<And>j. j < length rows \<Longrightarrow> row_shape (rows ! j) (hss ! j)"
    by (simp add: list_all2_conv_all_nth)
  have "qslot_from ''tr'' 0 rows = Some [0 + (length hss - 1)]"
  proof (rule qslot_from_found[OF i])
    from all[OF i] show "is_tag ''tr'' (rows ! (length hss - 1))" by (simp add: row_shape_def)
    from len show "\<forall>j<length rows. length hss - 1 < j \<longrightarrow> \<not> is_tag ''tr'' (rows ! j)" by auto
    show "\<forall>k \<in> set rows. \<not> has [''tr''] k"
    proof
      fix k assume "k \<in> set rows"
      then obtain j where "j < length rows" "k = rows ! j" by (auto simp: in_set_conv_nth)
      with all[of j] show "\<not> has [''tr''] k" by (simp add: row_no_tr)
    qed
  qed
  with False show ?thesis by simp
qed

lemma butlast_snoc_update: "xs \<noteq> [] \<Longrightarrow> butlast xs @ [x] = xs[length xs - 1 := x]"
  by (cases xs rule: rev_cases) simp_all

lemma cell_shape_new: "cell_shape (createElement (if h then ''th'' else ''td'')) h"
  by (simp add: cell_shape_def createElement_def cell_tag_def is_tag_def)

lemma last_table_update:
  "last_table i C hss (Element tg a c f ks) \<Longrightarrow> table_shape C hss' tb \<Longrightarrow>
   last_table i C hss' (Element tg a c f (ks[i := tb]))"
  by (auto simp: last_table_def nth_list_update)

lemma cell_destination_unfold:
  assumes l: "last_table i C hss (sect s)" and top: "tables_top (sect s)"
  shows "cell_destination h s =
     (case needs_row (if hss = [] then None else Some [length hss - 1]) (length (concat hss)) (Some C) of
        Inl e \<Rightarrow> Inl (e, s)
      | Inr new \<Rightarrow>
          (case (if new then appendChild [i] (createElement ''tr'') (sect s)
                 else map_option (\<lambda>r. (sect s, [i] @ r))
                        (if hss = [] then None else Some [length hss - 1])) of
             None \<Rightarrow> Inl (TypeError, s)
           | Some (t1, rp) \<Rightarrow>
               (case appendChild rp (createElement (cell_tag h)) t1 of
                  None \<Rightarrow> Inl (TypeError, s\<lparr>sect := t1\<rparr>)
                | Some (t2, q) \<Rightarrow> Inr (s\<lparr>sect := t2\<rparr>))))"
proof -
  let ?cell = "createElement (cell_tag h)"
  have ce: "createElement (if h then ''th'' else ''td'') = ?cell" by (simp add: cell_tag_def)
  from l obtain tg a c f ks where e: "sect s = Element tg a c f ks"
    by (cases "sect s") (auto simp: last_table_def)
  from l e have i: "i < length ks" and ts: "table_shape C hss (ks ! i)"
    and later: "\<forall>j < length ks. i < j \<longrightarrow> \<not> is_tag ''table'' (ks ! j)"
    by (simp_all add: last_table_def)
  from ts obtain ta tc rows where tb: "ks ! i = Element ''table'' ta tc (Some C) rows"
    by (cases "ks ! i") (auto simp: table_shape_def is_tag_def)
  let ?tb = "Element ''table'' ta tc (Some C) rows"
  from tb ts have rs: "list_all2 row_shape rows hss" by (simp add: table_shape_def)
  from top e have nk: "\<forall>k \<in> set ks. \<not> has [''table''] k"
    by (simp add: tables_top_def list_all_iff)
  from tb have it: "is_tag ''table'' (ks ! i)" by (simp add: is_tag_def)
  from qslot_from_found[OF i it later nk, of 0]
  have ft: "querySelector_last_of_type ''table'' (sect s) = Some [i]"
    by (simp add: e)
  have nt: "node_at [i] (sect s) = Some ?tb"
    using i tb by (simp add: e)
  have cols: "fltColumns ?tb = Some C" by simp
  have cnt: "length (querySelectorAll [''th'', ''td''] ?tb) = length (concat hss)"
    using table_shape_count[OF rs] by simp
  have row: "querySelector_last_of_type ''tr'' ?tb
      = (if hss = [] then None else Some [length hss - 1])"
    using last_row_shape[OF rs] by simp
  show ?thesis
    unfolding cell_destination_def ft option.case nt Let_def cnt row cols ce ..
qed

text \<open>With column count 0, the CELL handler throws once the table has a row.\<close>

lemma cell_destination_zero:
  assumes l: "last_table i 0 hss (sect s)" and top: "tables_top (sect s)" and ne: "hss \<noteq> []"
  shows "cell_destination h s = Inl (RangeError, s)"
  unfolding cell_destination_unfold[OF l top] using ne by (simp add: needs_row_def)

lemma cell_destination_shape:
  assumes l: "last_table i C hss (sect s)" and top: "tables_top (sect s)"
    and C: "hss = [] \<or> 0 < C"
  shows "\<exists>t'. cell_destination h s = Inr (s\<lparr>sect := t'\<rparr>) \<and> last_table i C (add_cell C hss h) t'"
proof -
  let ?cell = "createElement (cell_tag h)"
  have cs_new: "cell_shape ?cell h" by (simp add: cell_shape_def createElement_def is_tag_def)
  from l obtain tg a c f ks where e: "sect s = Element tg a c f ks"
    by (cases "sect s") (auto simp: last_table_def)
  from l e have i: "i < length ks" and ts: "table_shape C hss (ks ! i)"
    by (simp_all add: last_table_def)
  from ts obtain ta tc rows where tb: "ks ! i = Element ''table'' ta tc (Some C) rows"
    by (cases "ks ! i") (auto simp: table_shape_def is_tag_def)
  from tb ts have rs: "list_all2 row_shape rows hss" by (simp add: table_shape_def)
  then have len: "length rows = length hss" by (rule list_all2_lengthD)
  note unf = cell_destination_unfold[OF l top, of h]
  show ?thesis
  proof (cases "hss = [] \<or> length (concat hss) mod C = 0")
    case True
    let ?tb1 = "Element ''table'' ta tc (Some C) (rows @ [createElement ''tr''])"
    let ?tb' = "Element ''table'' ta tc (Some C) (rows @ [Element ''tr'' [] [] None [?cell]])"
    have new: "appendChild [i] (createElement ''tr'') (sect s)
        = Some (Element tg a c f (ks[i := ?tb1]), [i, length rows])"
      using i tb by (simp add: e)
    have new2: "appendChild [i, length rows] ?cell (Element tg a c f (ks[i := ?tb1]))
        = Some (Element tg a c f (ks[i := ?tb']), [i, length rows, 0])"
      using i by (simp add: createElement_def)
    have "row_shape (Element ''tr'' [] [] None [?cell]) [h]"
      using cs_new by (simp add: row_shape_def is_tag_def)
    with rs have "list_all2 row_shape (rows @ [Element ''tr'' [] [] None [?cell]]) (hss @ [[h]])"
      by (simp add: list_all2_appendI)
    then have "table_shape C (hss @ [[h]]) ?tb'" by (simp add: table_shape_def is_tag_def)
    from last_table_update[OF l[unfolded e] this]
    have lt: "last_table i C (add_cell C hss h) (Element tg a c f (ks[i := ?tb']))"
      using True by (simp add: add_cell_def)
    from True C have nr: "needs_row (if hss = [] then None else Some [length hss - 1])
        (length (concat hss)) (Some C) = Inr True"
      by (auto simp: needs_row_def)
    have "cell_destination h s = Inr (s\<lparr>sect := Element tg a c f (ks[i := ?tb'])\<rparr>)"
      unfolding unf nr by (simp only: sum.case if_True new option.case prod.case new2)
    with lt show ?thesis by blast
  next
    case False
    then have ne: "hss \<noteq> []" and md: "length (concat hss) mod C \<noteq> 0" by auto
    let ?m = "length hss - 1"
    from ne len have m: "?m < length rows" by (cases hss) auto
    from rs m have rsm: "row_shape (rows ! ?m) (hss ! ?m)" by (simp add: list_all2_conv_all_nth)
    then obtain ra rc rf cells where r: "rows ! ?m = Element ''tr'' ra rc rf cells"
      by (cases "rows ! ?m") (auto simp: row_shape_def is_tag_def)
    with rsm have cs: "list_all2 cell_shape cells (hss ! ?m)" by (simp add: row_shape_def)
    let ?row' = "Element ''tr'' ra rc rf (cells @ [?cell])"
    let ?tb' = "Element ''table'' ta tc (Some C) (rows[?m := ?row'])"
    have old: "appendChild [i, ?m] ?cell (sect s)
        = Some (Element tg a c f (ks[i := ?tb']), [i, ?m, length cells])"
      using i tb m r by (simp add: e)
    from cs cs_new have "list_all2 cell_shape (cells @ [?cell]) (hss ! ?m @ [h])"
      by (simp add: list_all2_appendI)
    then have "row_shape ?row' (hss ! ?m @ [h])" by (simp add: row_shape_def is_tag_def)
    from list_all2_update_cong[OF rs this, of ?m]
    have "list_all2 row_shape (rows[?m := ?row']) (hss[?m := hss ! ?m @ [h]])" .
    moreover from ne have "last hss = hss ! ?m" by (simp add: last_conv_nth)
    ultimately have "list_all2 row_shape (rows[?m := ?row']) (butlast hss @ [last hss @ [h]])"
      using ne by (simp add: butlast_snoc_update)
    then have "table_shape C (butlast hss @ [last hss @ [h]]) ?tb'"
      by (simp add: table_shape_def is_tag_def)
    from last_table_update[OF l[unfolded e] this]
    have lt: "last_table i C (add_cell C hss h) (Element tg a c f (ks[i := ?tb']))"
      using False by (simp add: add_cell_def)
    from ne md C have nr: "needs_row (if hss = [] then None else Some [length hss - 1])
        (length (concat hss)) (Some C) = Inr False"
      by (simp add: needs_row_def)
    have "cell_destination h s = Inr (s\<lparr>sect := Element tg a c f (ks[i := ?tb'])\<rparr>)"
      unfolding unf nr
      by (simp only: sum.case if_False ne option.map append_Cons append_Nil old option.case prod.case)
    with lt show ?thesis by blast
  qed
qed

lemma add_cell_chunks: "0 < C \<Longrightarrow> add_cell C (chunks C hs) h = chunks C (hs @ [h])"
  by (simp add: add_cell_def chunks_snoc concat_chunks chunks_eq_Nil)

section \<open>The table all through the lines after it\<close>

lemma filled_kept:
  "table_kept B i C hss s \<Longrightarrow> fills (sect s) (sect s') \<and> body s' = body s \<Longrightarrow>
   table_kept B i C hss s'"
  by (auto simp: table_kept_def dest: fills_last_table fills_no_table)

lemma same_kept:
  "table_kept B i C hss s \<Longrightarrow> sect s' = sect s \<Longrightarrow> body s' = body s \<Longrightarrow>
   table_kept B i C hss s'"
  by (simp add: table_kept_def)

lemma head_kept:
  assumes "table_kept B i C hss s"
  shows "table_kept B i C hss (head_destination (s\<lparr>link := None\<rparr>)\<lparr>dest := D_HEAD\<rparr>)"
  using assms
  by (auto simp: table_kept_def head_destination_def createElement_def nth_append)

lemma cell_kept:
  assumes ok: "ctx_ok s" and k: "table_kept B i C hss s" and C: "0 < C"
    and c: "cell_destination h s = Inr s1"
  shows "table_kept B i C (add_cell C hss h) (s1\<lparr>dest := D_CELL\<rparr>)"
proof -
  from k consider (live) "length (body s) = B" "last_table i C hss (sect s)"
    | (frozen) "\<not> has [''table''] (sect s)" by (auto simp: table_kept_def)
  then show ?thesis
  proof cases
    case live
    from ok have "tables_top (sect s)" by (simp add: ctx_ok_def sect_ok_def)
    from cell_destination_shape[OF live(2) this disjI2[OF C], of h] c obtain t' where
      "s1 = s\<lparr>sect := t'\<rparr>" "last_table i C (add_cell C hss h) t'" by auto
    with live(1) show ?thesis by (simp add: table_kept_def)
  next
    case frozen
    then have "querySelector_last_of_type ''table'' (sect s) = None" by (rule qslot_None)
    with c show ?thesis by (simp add: cell_destination_def)
  qed
qed

lemma table_kept_step:
  assumes ok: "ctx_ok s" and k: "table_kept B i C hss s" and C: "0 < C"
    and l: "\<not> table_or_section ln" and st: "step s ln = Inr s'"
  shows "table_kept B i C (case cell_header ln of None \<Rightarrow> hss | Some h \<Rightarrow> add_cell C hss h) s'"
proof (cases ln)
  case (TextLine r tx)
  with text_line_fills[OF ok] st filled_kept[OF k] show ?thesis by simp
next
  case (OtherLine r)
  with st same_kept[OF k, of s'] show ?thesis by (auto simp: reset_def)
next
  case (TypeLine r ty)
  let ?s = "if r then reset s else s"
  have ok': "ctx_ok ?s" using ok by (rule ctx_ok_reset)
  then have sec: "is_tag ''section'' (sect ?s)" by (simp add: ctx_ok_def sect_ok_def)
  have k': "table_kept B i C hss ?s" using same_kept[OF k, of ?s] by (simp add: reset_def)
  from st TypeLine have h: "type_line_handler ty ?s = Inr s'" by simp
  show ?thesis
  proof (cases ty)
    case (T_SECTION al br)
    with l TypeLine show ?thesis by simp
  next
    case (T_PARAGRAPH al)
    with h paragraph_fills[OF _ sec] filled_kept[OF k'] TypeLine show ?thesis by simp
  next
    case (T_HINT c)
    with h same_kept[OF k', of s'] TypeLine show ?thesis by auto
  next
    case (T_LINK c)
    with h link_fills[OF _ sec] filled_kept[OF k'] TypeLine show ?thesis by simp
  next
    case (T_ANCHOR c)
    with h anchor_fills[OF _ sec] filled_kept[OF k'] TypeLine show ?thesis by simp
  next
    case (T_BLOB m dt)
    with h same_kept[OF k', of s'] TypeLine show ?thesis by auto
  next
    case (T_IMAGE c)
    with h image_fills[OF _ sec] filled_kept[OF k'] TypeLine show ?thesis by simp
  next
    case (T_TABLE n)
    with l TypeLine show ?thesis by simp
  next
    case (T_DESTINATION d hd)
    let ?u = "?s\<lparr>link := None\<rparr>"
    have oku: "ctx_ok ?u" using ok' by (rule ctx_ok_unlink)
    have ku: "table_kept B i C hss ?u" using same_kept[OF k', of ?u] by simp
    have secu: "is_tag ''section'' (sect ?u)" using sec by simp
    show ?thesis
    proof (cases d)
      case D_BODY
      with h T_DESTINATION have "s' = ?u\<lparr>dest := D_BODY\<rparr>" by (simp add: destination_line_def)
      with same_kept[OF ku, of s'] TypeLine T_DESTINATION D_BODY show ?thesis by simp
    next
      case D_NOTE
      with h T_DESTINATION obtain s1 where
        n: "note_destination ?u = Inr s1" and e: "s' = s1\<lparr>dest := D_NOTE\<rparr>"
        by (auto simp: destination_line_def split: sum.splits)
      from filled_kept[OF ku note_fills[OF n secu]] have "table_kept B i C hss s1" .
      from same_kept[OF this, of s'] e TypeLine T_DESTINATION D_NOTE show ?thesis by simp
    next
      case D_CELL
      with h T_DESTINATION obtain s1 where
        n: "cell_destination hd ?u = Inr s1" and e: "s' = s1\<lparr>dest := D_CELL\<rparr>"
        by (auto simp: destination_line_def split: sum.splits)
      from cell_kept[OF oku ku C n] e TypeLine T_DESTINATION D_CELL show ?thesis by simp
    next
      case D_HEAD
      with h T_DESTINATION have "s' = head_destination ?u\<lparr>dest := D_HEAD\<rparr>"
        by (simp add: destination_line_def)
      with head_kept[OF k'] TypeLine T_DESTINATION D_HEAD show ?thesis by simp
    qed
  next
    case T_OTHER
    with h same_kept[OF k', of s'] TypeLine show ?thesis by auto
  qed
qed

lemma cell_headers_Nil [simp]: "cell_headers [] = []"
  by (simp add: cell_headers_def)

lemma cell_headers_Cons:
  "cell_headers (l # ls) = (case cell_header l of None \<Rightarrow> cell_headers ls | Some h \<Rightarrow> h # cell_headers ls)"
  by (simp add: cell_headers_def List.map_filter_simps split: option.splits)

lemma table_kept_run:
  assumes C: "0 < C"
  shows "ctx_ok s \<Longrightarrow> table_kept B i C (chunks C hs) s \<Longrightarrow>
     list_all (\<lambda>l. \<not> table_or_section l) rest \<Longrightarrow> run s rest = Inr s' \<Longrightarrow>
     table_kept B i C (chunks C (hs @ cell_headers rest)) s'"
proof (induction rest arbitrary: s hs)
  case Nil
  then show ?case by simp
next
  case (Cons l rest)
  from Cons.prems(4) obtain s1 where st: "step s l = Inr s1" and r: "run s1 rest = Inr s'"
    by (auto split: sum.splits)
  from Cons.prems(3) have nl: "\<not> table_or_section l" and nr: "list_all (\<lambda>l. \<not> table_or_section l) rest"
    by simp_all
  from ctx_ok_step[OF Cons.prems(1) st] have ok1: "ctx_ok s1" .
  from table_kept_step[OF Cons.prems(1,2) C nl st]
  have k1: "table_kept B i C (case cell_header l of None \<Rightarrow> chunks C hs | Some h \<Rightarrow> add_cell C (chunks C hs) h) s1" .
  show ?case
  proof (cases "cell_header l")
    case None
    with k1 Cons.IH[OF ok1 _ nr r, of hs] show ?thesis by (simp add: cell_headers_Cons)
  next
    case (Some h)
    with k1 have "table_kept B i C (chunks C (hs @ [h])) s1" by (simp add: add_cell_chunks[OF C])
    from Cons.IH[OF ok1 this nr r] Some show ?thesis by (simp add: cell_headers_Cons)
  qed
qed

lemma cells_and_text_accepted:
  assumes C: "0 < C"
  shows "ctx_ok s \<Longrightarrow> last_table i C hss (sect s) \<Longrightarrow> list_all cell_or_text rest \<Longrightarrow>
     \<exists>s'. run s rest = Inr s'"
proof (induction rest arbitrary: s hss)
  case Nil
  then show ?case by simp
next
  case (Cons l rest)
  from Cons.prems(3) have cl: "cell_or_text l" and cr: "list_all cell_or_text rest" by simp_all
  have "\<exists>s1 hss1. step s l = Inr s1 \<and> last_table i C hss1 (sect s1)"
  proof (cases l)
    case (TextLine r tx)
    from text_line_succeeds[OF Cons.prems(1), of r tx] obtain s1 where
      st: "step s (TextLine r tx) = Inr s1" by blast
    from text_line_fills[OF Cons.prems(1) st] Cons.prems(2) have "last_table i C hss (sect s1)"
      by (auto dest: fills_last_table)
    with st TextLine show ?thesis by blast
  next
    case (OtherLine r)
    with cl show ?thesis by simp
  next
    case (TypeLine r ty)
    with cl obtain h where ty: "ty = T_DESTINATION D_CELL h"
      by (cases ty rule: type_line.exhaust; cases "l" rule: cell_or_text.cases) auto
    let ?u = "(if r then reset s else s)\<lparr>link := None\<rparr>"
    from Cons.prems(1) have "tables_top (sect ?u)" by (simp add: ctx_ok_def sect_ok_def reset_def)
    moreover from Cons.prems(2) have "last_table i C hss (sect ?u)" by (simp add: reset_def)
    ultimately obtain t' where
      "cell_destination h ?u = Inr (?u\<lparr>sect := t'\<rparr>)" "last_table i C (add_cell C hss h) t'"
      using cell_destination_shape[OF _ _ disjI2[OF C], of i hss ?u h] by blast
    with TypeLine ty show ?thesis
      by (intro exI[of _ "?u\<lparr>sect := t', dest := D_CELL\<rparr>"] exI[of _ "add_cell C hss h"])
        (simp add: destination_line_def)
  qed
  then obtain s1 hss1 where st: "step s l = Inr s1" and l1: "last_table i C hss1 (sect s1)" by blast
  from Cons.IH[OF ctx_ok_step[OF Cons.prems(1) st] l1 cr] st show ?case by simp
qed

lemma table_line_last_table:
  assumes ok: "ctx_ok s" and st: "step s (TypeLine r (T_TABLE C)) = Inr s1"
  shows "last_table (length (childNodes (sect s))) C [] (sect s1) \<and> body s1 = body s"
proof -
  from table_line_on_section[OF ok, of r C] st obtain tg a c f ks where
    e: "sect s = Element tg a c f ks" "sect s1 = Element tg a c f (ks @ [table_of C []])"
    by auto
  have "table_shape C [] (table_of C [])" by (simp add: table_shape_def table_of_def is_tag_def)
  with e have "last_table (length (childNodes (sect s))) C [] (sect s1)"
    by (simp add: last_table_def nth_append)
  moreover from st table_grows[of C "if r then reset s else s" s1] have "body s1 = body s"
    by (simp add: reset_def split: if_splits)
  ultimately show ?thesis by simp
qed

lemma chunks_rows:
  assumes C: "0 < C" and ne: "hs \<noteq> []"
  shows "chunks C hs \<noteq> []
    \<and> length (chunks C hs) = (length hs + C - 1) div C
    \<and> (\<forall>j < length (chunks C hs) - 1. length (chunks C hs ! j) = C)
    \<and> length (last (chunks C hs)) = (if length hs mod C = 0 then C else length hs mod C)"
proof -
  let ?K = "length hs"
  let ?hss = "chunks C hs"
  have ml: "map length ?hss
      = replicate (?K div C) C @ (if ?K mod C = 0 then [] else [?K mod C])"
    using chunks_lengths[OF C, of hs] by simp
  have n: "length ?hss = ?K div C + (if ?K mod C = 0 then 0 else 1)"
    using arg_cong[OF ml, of length] by simp
  have len: "length ?hss = (?K + C - 1) div C"
    using n rows_count[OF C, of ?K] by simp
  have nth: "length (?hss ! j) = C" if "j < length ?hss - 1" for j
  proof -
    from that have j: "j < length ?hss" by simp
    have "length (?hss ! j) = map length ?hss ! j" using j by simp
    moreover have "j < ?K div C" using n that by (simp split: if_splits)
    ultimately show ?thesis by (simp only: ml) (simp add: nth_append)
  qed
  have nn: "?hss \<noteq> []" using C ne by (simp add: chunks_eq_Nil)
  have lst: "length (last ?hss) = (if ?K mod C = 0 then C else ?K mod C)"
  proof -
    have "length (last ?hss) = last (map length ?hss)" using nn by (simp add: last_map)
    also have "\<dots> = (if ?K mod C = 0 then C else ?K mod C)"
    proof (cases "?K mod C = 0")
      case True
      then have "C dvd ?K" by auto
      with ne have "C \<le> ?K" by (simp add: dvd_imp_le)
      with C have "0 < ?K div C" by (simp add: div_greater_zero_iff)
      with True show ?thesis by (simp only: ml) simp
    next
      case False
      then show ?thesis by (simp only: ml) simp
    qed
    finally show ?thesis .
  qed
  from nn len nth lst show ?thesis by blast
qed

lemma cell_shape_tags:
  "list_all2 cell_shape cells hs \<Longrightarrow> map tagName cells = map (\<lambda>h. Some (cell_tag h)) hs"
  by (induction rule: list_all2_induct) (simp_all add: cell_shape_def is_tag_def)

lemma row_shape_tags:
  "list_all2 row_shape rows hss \<Longrightarrow>
   map (\<lambda>row. (tagName row, map tagName (childNodes row))) rows
     = map (\<lambda>hs. (Some ''tr'', map (\<lambda>h. Some (cell_tag h)) hs)) hss"
  by (induction rule: list_all2_induct) (simp_all add: row_shape_def is_tag_def cell_shape_tags)

lemma row_shape_lengths:
  "list_all2 row_shape rows hss \<Longrightarrow> map (\<lambda>row. length (childNodes row)) rows = map length hss"
  by (induction rule: list_all2_induct) (auto simp: row_shape_def dest: list_all2_lengthD)

lemma table_kept_declared:
  assumes "table_kept (length (body s)) (length (childNodes (sect s))) C hss s'"
  shows "\<exists>tb. declared_table s s' = Some tb \<and> table_shape C hss tb"
  using assms by (auto simp: table_kept_def declared_table_def last_table_def nth_append)

text \<open>
  C5. A table is declared with column count \<open>C \<ge> 1\<close> in any state a pass reaches; lines
  other than TABLE and SECTION lines follow, \<open>K \<ge> 1\<close> of them CELL directives. When these
  lines are CELL directives and text lines only, the pass accepts them all. Whenever the
  pass accepts the lines, the table then has \<open>ceil (K / C)\<close> rows: they are \<^verbatim>\<open>tr\<close> elements
  whose children are the cells of the directives, \<^verbatim>\<open>th\<close> or \<^verbatim>\<open>td\<close>, in the order of the
  directives; every row but the last has \<open>C\<close> cells, and the last row \<open>K mod C\<close> of them, or
  \<open>C\<close> when \<open>K\<close> is a multiple of \<open>C\<close>.
\<close>

theorem table_row_wrapping:
  assumes reach: "run (init_ctx opts d) pre = Inr s"
    and C: "0 < C"
    and rest: "list_all (\<lambda>l. \<not> table_or_section l) rest"
    and K: "K = length (cell_headers rest)" "0 < K"
  shows "(list_all cell_or_text rest \<longrightarrow>
            (\<exists>s'. run (init_ctx opts d) (pre @ TypeLine r (T_TABLE C) # rest) = Inr s'))
    \<and> (\<forall>s'. run (init_ctx opts d) (pre @ TypeLine r (T_TABLE C) # rest) = Inr s' \<longrightarrow>
         (\<exists>tb rows. declared_table s s' = Some tb
            \<and> is_tag ''table'' tb \<and> fltColumns tb = Some C \<and> childNodes tb = rows
            \<and> map (\<lambda>row. (tagName row, map tagName (childNodes row))) rows
                = map (\<lambda>hs. (Some ''tr'', map (\<lambda>h. Some (cell_tag h)) hs))
                    (chunks C (cell_headers rest))
            \<and> length rows = (K + C - 1) div C
            \<and> (\<forall>j < length rows - 1. length (childNodes (rows ! j)) = C)
            \<and> length (childNodes (last rows)) = (if K mod C = 0 then C else K mod C)))"
proof (intro conjI impI allI)
  let ?init = "init_ctx opts d"
  let ?t = "TypeLine r (T_TABLE C)"
  from reachable_ok[OF reach] have ok: "ctx_ok s" .
  from table_line_on_section[OF ok, of r C] obtain s1 where st: "step s ?t = Inr s1" by blast
  from ctx_ok_step[OF ok st] have ok1: "ctx_ok s1" .
  from table_line_last_table[OF ok st] have
    l1: "last_table (length (childNodes (sect s))) C [] (sect s1)" and b1: "body s1 = body s"
    by simp_all
  have run: "run ?init (pre @ ?t # rest) = run s1 rest"
    using reach st by (simp add: run_append)
  {
    assume "list_all cell_or_text rest"
    from cells_and_text_accepted[OF C ok1 l1 this] run
    show "\<exists>s'. run ?init (pre @ ?t # rest) = Inr s'" by simp
  }
  {
    fix s' assume "run ?init (pre @ ?t # rest) = Inr s'"
    with run have r: "run s1 rest = Inr s'" by simp
    let ?hss = "chunks C (cell_headers rest)"
    from l1 b1 have "table_kept (length (body s)) (length (childNodes (sect s))) C (chunks C []) s1"
      by (simp add: table_kept_def)
    from table_kept_run[OF C ok1 this rest r]
    have "table_kept (length (body s)) (length (childNodes (sect s))) C ?hss s'" by simp
    from table_kept_declared[OF this] obtain tb where
      dt: "declared_table s s' = Some tb" and ts: "table_shape C ?hss tb" by blast
    from ts have rs: "list_all2 row_shape (childNodes tb) ?hss" by (simp add: table_shape_def)
    from K have ne: "cell_headers rest \<noteq> []" by auto
    from chunks_rows[OF C ne] K(1) have
      nn: "?hss \<noteq> []" and len: "length ?hss = (K + C - 1) div C"
      and nth: "\<forall>j < length ?hss - 1. length (?hss ! j) = C"
      and lst: "length (last ?hss) = (if K mod C = 0 then C else K mod C)"
      by simp_all
    from rs have ll: "length (childNodes tb) = length ?hss" by (rule list_all2_lengthD)
    from row_shape_lengths[OF rs]
    have ml: "map (\<lambda>row. length (childNodes row)) (childNodes tb) = map length ?hss" .
    have n1: "length (childNodes (childNodes tb ! j)) = length (?hss ! j)"
      if "j < length ?hss" for j
      using arg_cong[OF ml, of "\<lambda>xs. xs ! j"] that ll by simp
    have a: "\<forall>j < length (childNodes tb) - 1. length (childNodes (childNodes tb ! j)) = C"
      using nth n1 ll by simp
    from nn ll have "childNodes tb \<noteq> []" by auto
    with nn ll n1[of "length ?hss - 1"]
    have b: "length (childNodes (last (childNodes tb))) = length (last ?hss)"
      by (simp add: last_conv_nth)
    from dt ts row_shape_tags[OF rs] len ll a b lst
    show "\<exists>tb rows. declared_table s s' = Some tb
            \<and> is_tag ''table'' tb \<and> fltColumns tb = Some C \<and> childNodes tb = rows
            \<and> map (\<lambda>row. (tagName row, map tagName (childNodes row))) rows
                = map (\<lambda>hs. (Some ''tr'', map (\<lambda>h. Some (cell_tag h)) hs)) ?hss
            \<and> length rows = (K + C - 1) div C
            \<and> (\<forall>j < length rows - 1. length (childNodes (rows ! j)) = C)
            \<and> length (childNodes (last rows)) = (if K mod C = 0 then C else K mod C)"
      by (simp add: table_shape_def)
  }
qed

theorem table_row_wrapping_witness:
  "run (init_ctx default_options (plain_document [])) [TypeLine False (T_SECTION ALIGN_NONE False)]
     = Inr (init_ctx default_options (plain_document []))
   \<and> (0::nat) < 2
   \<and> list_all (\<lambda>l. \<not> table_or_section l)
        [TypeLine False (T_DESTINATION D_CELL True), TextLine False (plain_text ''A''),
         TypeLine False (T_DESTINATION D_CELL True), TextLine False (plain_text ''B''),
         TypeLine False (T_DESTINATION D_CELL False), TextLine False (plain_text ''C'')]
   \<and> (3::nat) = length (cell_headers
        [TypeLine False (T_DESTINATION D_CELL True), TextLine False (plain_text ''A''),
         TypeLine False (T_DESTINATION D_CELL True), TextLine False (plain_text ''B''),
         TypeLine False (T_DESTINATION D_CELL False), TextLine False (plain_text ''C'')])
   \<and> (0::nat) < 3
   \<and> list_all cell_or_text
        [TypeLine False (T_DESTINATION D_CELL True), TextLine False (plain_text ''A''),
         TypeLine False (T_DESTINATION D_CELL True), TextLine False (plain_text ''B''),
         TypeLine False (T_DESTINATION D_CELL False), TextLine False (plain_text ''C'')]
   \<and> (\<exists>s'. run (init_ctx default_options (plain_document []))
          ([TypeLine False (T_SECTION ALIGN_NONE False)] @ TypeLine False (T_TABLE 2)
             # [TypeLine False (T_DESTINATION D_CELL True), TextLine False (plain_text ''A''),
                TypeLine False (T_DESTINATION D_CELL True), TextLine False (plain_text ''B''),
                TypeLine False (T_DESTINATION D_CELL False), TextLine False (plain_text ''C'')])
          = Inr s'
      \<and> (\<exists>tb rows. declared_table (init_ctx default_options (plain_document [])) s' = Some tb
            \<and> is_tag ''table'' tb \<and> fltColumns tb = Some 2 \<and> childNodes tb = rows
            \<and> map (\<lambda>row. (tagName row, map tagName (childNodes row))) rows
                = [(Some ''tr'', [Some ''th'', Some ''th'']), (Some ''tr'', [Some ''td''])]
            \<and> length rows = 2
            \<and> length (childNodes (rows ! 0)) = 2
            \<and> length (childNodes (last rows)) = 1))"
proof -
  let ?init = "init_ctx default_options (plain_document [])"
  let ?rest = "[TypeLine False (T_DESTINATION D_CELL True), TextLine False (plain_text ''A''),
         TypeLine False (T_DESTINATION D_CELL True), TextLine False (plain_text ''B''),
         TypeLine False (T_DESTINATION D_CELL False), TextLine False (plain_text ''C'')]"
  have h1: "run ?init [TypeLine False (T_SECTION ALIGN_NONE False)] = Inr ?init"
    by (simp add: init_ctx_def section_line_def hasChildNodes_def createElement_def add_align_def
        default_options_def plain_document_def title_heading_def)
  have h2: "(0::nat) < 2" by simp
  have h3: "list_all (\<lambda>l. \<not> table_or_section l) ?rest" by simp
  have ch: "cell_headers ?rest = [True, True, False]"
    by (simp add: cell_headers_def List.map_filter_simps)
  have h4: "(3::nat) = length (cell_headers ?rest)" by (simp add: ch)
  have h5: "(0::nat) < 3" by simp
  have h6: "list_all cell_or_text ?rest" by simp
  have c: "chunks 2 [True, True, False] = [[True, True], [False]]" by code_simp
  note T = table_row_wrapping[OF h1 h2 h3 h4 h5, of False]
  from T[THEN conjunct1, THEN mp, OF h6] obtain s' where
    r: "run ?init ([TypeLine False (T_SECTION ALIGN_NONE False)] @ TypeLine False (T_TABLE 2) # ?rest)
          = Inr s'"
    by (rule exE)
  from T[THEN conjunct2, THEN spec, THEN mp, OF r] obtain tb rows where
    X: "declared_table ?init s' = Some tb
      \<and> is_tag ''table'' tb \<and> fltColumns tb = Some 2 \<and> childNodes tb = rows
      \<and> map (\<lambda>row. (tagName row, map tagName (childNodes row))) rows
         = map (\<lambda>hs. (Some ''tr'', map (\<lambda>h. Some (cell_tag h)) hs)) (chunks 2 (cell_headers ?rest))
      \<and> length rows = (3 + 2 - 1) div 2
      \<and> (\<forall>j < length rows - 1. length (childNodes (rows ! j)) = 2)
      \<and> length (childNodes (last rows)) = (if (3::nat) mod 2 = 0 then 2 else 3 mod 2)"
    by (elim exE)
  have v: "map (\<lambda>hs. (Some ''tr'', map (\<lambda>h. Some (cell_tag h)) hs)) (chunks 2 (cell_headers ?rest))
      = [(Some ''tr'', [Some ''th'', Some ''th'']), (Some ''tr'', [Some ''td''])]"
    unfolding ch c by (simp add: cell_tag_def)
  from X have Y: "declared_table ?init s' = Some tb
      \<and> is_tag ''table'' tb \<and> fltColumns tb = Some 2 \<and> childNodes tb = rows
      \<and> map (\<lambda>row. (tagName row, map tagName (childNodes row))) rows
           = [(Some ''tr'', [Some ''th'', Some ''th'']), (Some ''tr'', [Some ''td''])]
      \<and> length rows = 2
      \<and> length (childNodes (rows ! 0)) = 2
      \<and> length (childNodes (last rows)) = 1"
    unfolding v by simp
  from Y have "\<exists>tb rows. declared_table ?init s' = Some tb
      \<and> is_tag ''table'' tb \<and> fltColumns tb = Some 2 \<and> childNodes tb = rows
      \<and> map (\<lambda>row. (tagName row, map tagName (childNodes row))) rows
           = [(Some ''tr'', [Some ''th'', Some ''th'']), (Some ''tr'', [Some ''td''])]
      \<and> length rows = 2
      \<and> length (childNodes (rows ! 0)) = 2
      \<and> length (childNodes (last rows)) = 1"
    by (intro exI)
  with r have E: "\<exists>s'. run ?init ([TypeLine False (T_SECTION ALIGN_NONE False)] @ TypeLine False (T_TABLE 2) # ?rest)
          = Inr s'
      \<and> (\<exists>tb rows. declared_table ?init s' = Some tb
      \<and> is_tag ''table'' tb \<and> fltColumns tb = Some 2 \<and> childNodes tb = rows
      \<and> map (\<lambda>row. (tagName row, map tagName (childNodes row))) rows
           = [(Some ''tr'', [Some ''th'', Some ''th'']), (Some ''tr'', [Some ''td''])]
      \<and> length rows = 2
      \<and> length (childNodes (rows ! 0)) = 2
      \<and> length (childNodes (last rows)) = 1)"
    by (intro exI[of _ s'] conjI)
  from h1 h2 h3 h4 h5 h6 E show ?thesis by (intro conjI)
qed

section \<open>Column count 0\<close>

lemma step_fills:
  assumes ok: "ctx_ok s" and l: "keeps_table ln" and st: "step s ln = Inr s'"
  shows "fills (sect s) (sect s') \<and> body s' = body s"
proof (cases ln)
  case (TextLine r tx)
  with text_line_fills[OF ok] st show ?thesis by simp
next
  case (OtherLine r)
  with st show ?thesis by (auto simp: reset_def fills_refl)
next
  case (TypeLine r ty)
  let ?s = "if r then reset s else s"
  have ok': "ctx_ok ?s" using ok by (rule ctx_ok_reset)
  then have sec: "is_tag ''section'' (sect ?s)" by (simp add: ctx_ok_def sect_ok_def)
  have eq: "sect ?s = sect s" "body ?s = body s" by (simp_all add: reset_def)
  from st TypeLine have h: "type_line_handler ty ?s = Inr s'" by simp
  have "fills (sect ?s) (sect s') \<and> body s' = body ?s"
  proof (cases ty)
    case (T_SECTION al br)
    with l TypeLine show ?thesis by simp
  next
    case (T_PARAGRAPH al)
    with h paragraph_fills[OF _ sec] show ?thesis by simp
  next
    case (T_HINT c)
    with h show ?thesis by (auto simp: fills_refl)
  next
    case (T_LINK c)
    with h link_fills[OF _ sec] show ?thesis by simp
  next
    case (T_ANCHOR c)
    with h anchor_fills[OF _ sec] show ?thesis by simp
  next
    case (T_BLOB m dt)
    with h show ?thesis by (auto simp: fills_refl)
  next
    case (T_IMAGE c)
    with h image_fills[OF _ sec] show ?thesis by simp
  next
    case (T_TABLE n)
    with l TypeLine show ?thesis by simp
  next
    case (T_DESTINATION d hd)
    let ?u = "?s\<lparr>link := None\<rparr>"
    have secu: "is_tag ''section'' (sect ?u)" using sec by simp
    show ?thesis
    proof (cases d)
      case D_BODY
      with h T_DESTINATION have "s' = ?u\<lparr>dest := D_BODY\<rparr>" by (simp add: destination_line_def)
      then show ?thesis by (simp add: fills_refl)
    next
      case D_NOTE
      with h T_DESTINATION obtain s1 where
        n: "note_destination ?u = Inr s1" and e: "s' = s1\<lparr>dest := D_NOTE\<rparr>"
        by (auto simp: destination_line_def split: sum.splits)
      from note_fills[OF n secu] e show ?thesis by simp
    next
      case D_CELL
      with l TypeLine T_DESTINATION show ?thesis by simp
    next
      case D_HEAD
      with l TypeLine T_DESTINATION show ?thesis by simp
    qed
  next
    case T_OTHER
    with h show ?thesis by (auto simp: fills_refl)
  qed
  with eq show ?thesis by simp
qed

lemma last_table_run:
  "ctx_ok s \<Longrightarrow> last_table i C hss (sect s) \<Longrightarrow> list_all keeps_table rest \<Longrightarrow>
   run s rest = Inr s' \<Longrightarrow> ctx_ok s' \<and> last_table i C hss (sect s') \<and> body s' = body s"
proof (induction rest arbitrary: s)
  case Nil
  then show ?case by simp
next
  case (Cons l rest)
  from Cons.prems(4) obtain s1 where st: "step s l = Inr s1" and r: "run s1 rest = Inr s'"
    by (auto split: sum.splits)
  from Cons.prems(3) have kl: "keeps_table l" and kr: "list_all keeps_table rest" by simp_all
  from step_fills[OF Cons.prems(1) kl st] have f: "fills (sect s) (sect s1)" and b: "body s1 = body s"
    by simp_all
  from Cons.IH[OF ctx_ok_step[OF Cons.prems(1) st] fills_last_table[OF f Cons.prems(2)] kr r] b
  show ?case by simp
qed

lemma cell_line_step:
  assumes ok: "ctx_ok s" and l: "last_table i C hss (sect s)" and C: "hss = [] \<or> 0 < C"
  shows "\<exists>s1. step s (cell_line (r, h)) = Inr s1 \<and> last_table i C (add_cell C hss h) (sect s1)
     \<and> body s1 = body s"
proof -
  let ?u = "(if r then reset s else s)\<lparr>link := None\<rparr>"
  from ok have top: "tables_top (sect ?u)" by (simp add: ctx_ok_def sect_ok_def reset_def)
  from l have lu: "last_table i C hss (sect ?u)" by (simp add: reset_def)
  from cell_destination_shape[OF lu top C, of h] obtain t' where
    c: "cell_destination h ?u = Inr (?u\<lparr>sect := t'\<rparr>)" and t': "last_table i C (add_cell C hss h) t'"
    by blast
  from c have "step s (cell_line (r, h)) = Inr (?u\<lparr>sect := t', dest := D_CELL\<rparr>)"
    by (simp add: cell_line_def destination_line_def)
  with t' show ?thesis by (auto simp: reset_def)
qed

lemma cell_line_zero:
  assumes ok: "ctx_ok s" and l: "last_table i 0 hss (sect s)" and ne: "hss \<noteq> []"
  shows "step s (cell_line (r, h)) = Inl (RangeError, (if r then reset s else s)\<lparr>link := None\<rparr>)"
proof -
  let ?u = "(if r then reset s else s)\<lparr>link := None\<rparr>"
  from ok have top: "tables_top (sect ?u)" by (simp add: ctx_ok_def sect_ok_def reset_def)
  from l have lu: "last_table i 0 hss (sect ?u)" by (simp add: reset_def)
  from cell_destination_zero[OF lu top ne, of h] show ?thesis
    by (simp add: cell_line_def destination_line_def)
qed

lemma zero_columns_between:
  assumes reach: "run (init_ctx opts d) pre = Inr s"
    and k1: "list_all keeps_table rest1"
  shows "(\<forall>s0. run (init_ctx opts d) (pre @ TypeLine r (T_TABLE 0) # rest1) = Inr s0 \<longrightarrow>
            (\<exists>s1. run (init_ctx opts d) (pre @ TypeLine r (T_TABLE 0) # rest1 @ [cell_line (r1, h1)])
                    = Inr s1))
    \<and> (list_all keeps_table rest2 \<longrightarrow>
         (\<forall>s2. run (init_ctx opts d)
                 (pre @ TypeLine r (T_TABLE 0) # rest1 @ cell_line (r1, h1) # rest2) = Inr s2 \<longrightarrow>
            (\<exists>tb. declared_table s s2 = Some tb \<and> is_tag ''table'' tb \<and> fltColumns tb = Some 0
                 \<and> map (\<lambda>row. (tagName row, map tagName (childNodes row))) (childNodes tb)
                     = [(Some ''tr'', [Some (cell_tag h1)])])
            \<and> run (init_ctx opts d)
                 (pre @ TypeLine r (T_TABLE 0) # rest1 @ cell_line (r1, h1) # rest2
                    @ [cell_line (r2, h2)])
                = Inl (RangeError, (if r2 then reset s2 else s2)\<lparr>link := None\<rparr>)))"
proof (intro conjI impI allI)
  let ?init = "init_ctx opts d"
  let ?t = "TypeLine r (T_TABLE 0)"
  let ?i = "length (childNodes (sect s))"
  from reachable_ok[OF reach] have ok: "ctx_ok s" .
  from table_line_on_section[OF ok, of r 0] obtain sa where st: "step s ?t = Inr sa" by blast
  from ctx_ok_step[OF ok st] have oka: "ctx_ok sa" .
  from table_line_last_table[OF ok st] have
    la: "last_table ?i 0 [] (sect sa)" and ba: "body sa = body s" by simp_all
  have run: "run ?init (pre @ ?t # ls) = run sa ls" for ls
    using reach st by (simp add: run_append)
  {
    fix s0 assume "run ?init (pre @ ?t # rest1) = Inr s0"
    with run have r0: "run sa rest1 = Inr s0" by simp
    from last_table_run[OF oka la k1 r0] have ok0: "ctx_ok s0" and l0: "last_table ?i 0 [] (sect s0)"
      by simp_all
    from cell_line_step[OF ok0 l0, of r1 h1] obtain s1 where "step s0 (cell_line (r1, h1)) = Inr s1"
      by auto
    with r0 have "run sa (rest1 @ [cell_line (r1, h1)]) = Inr s1" by (simp add: run_snoc)
    with run[of "rest1 @ [cell_line (r1, h1)]"]
    show "\<exists>s1. run ?init (pre @ ?t # rest1 @ [cell_line (r1, h1)]) = Inr s1" by auto
  }
  {
    fix s2 assume k2: "list_all keeps_table rest2"
      and "run ?init (pre @ ?t # rest1 @ cell_line (r1, h1) # rest2) = Inr s2"
    with run have r2: "run sa (rest1 @ cell_line (r1, h1) # rest2) = Inr s2" by simp
    then obtain s0 where r0: "run sa rest1 = Inr s0"
      and rc: "run s0 (cell_line (r1, h1) # rest2) = Inr s2"
      by (auto simp: run_append split: sum.splits)
    from last_table_run[OF oka la k1 r0] have ok0: "ctx_ok s0" and l0: "last_table ?i 0 [] (sect s0)"
      and b0: "body s0 = body sa" by simp_all
    from cell_line_step[OF ok0 l0, of r1 h1] obtain s1 where
      st1: "step s0 (cell_line (r1, h1)) = Inr s1"
      and l1: "last_table ?i 0 [[h1]] (sect s1)" and b1: "body s1 = body s0"
      by (auto simp: add_cell_def)
    from rc st1 have rr: "run s1 rest2 = Inr s2" by simp
    from last_table_run[OF ctx_ok_step[OF ok0 st1] l1 k2 rr] have
      ok2: "ctx_ok s2" and l2: "last_table ?i 0 [[h1]] (sect s2)" and b2: "body s2 = body s1"
      by simp_all
    from l2 b2 b1 b0 ba have "table_kept (length (body s)) ?i 0 [[h1]] s2"
      by (simp add: table_kept_def)
    from table_kept_declared[OF this] obtain tb where
      dt: "declared_table s s2 = Some tb" and ts: "table_shape 0 [[h1]] tb" by blast
    from ts row_shape_tags[of "childNodes tb" "[[h1]]"] dt
    show "\<exists>tb. declared_table s s2 = Some tb \<and> is_tag ''table'' tb \<and> fltColumns tb = Some 0
                 \<and> map (\<lambda>row. (tagName row, map tagName (childNodes row))) (childNodes tb)
                     = [(Some ''tr'', [Some (cell_tag h1)])]"
      by (simp add: table_shape_def)
    from cell_line_zero[OF ok2 l2, of r2 h2] r2
    have "run sa ((rest1 @ cell_line (r1, h1) # rest2) @ [cell_line (r2, h2)])
        = Inl (RangeError, (if r2 then reset s2 else s2)\<lparr>link := None\<rparr>)"
      by (simp only: run_snoc) simp
    with run[of "rest1 @ cell_line (r1, h1) # rest2 @ [cell_line (r2, h2)]"]
    show "run ?init (pre @ ?t # rest1 @ cell_line (r1, h1) # rest2 @ [cell_line (r2, h2)])
        = Inl (RangeError, (if r2 then reset s2 else s2)\<lparr>link := None\<rparr>)"
      by simp
  }
qed

text \<open>
  C3, as amended. A table is declared with column count 0 in any state a pass reaches. The
  first CELL directive after it is accepted: the table has no row yet, the remainder is
  not evaluated, and a row with the one cell is opened. The next CELL directive evaluates
  the remainder by zero and ends the pass with the \<^verbatim>\<open>RangeError\<close> of the runtime, not with
  the rendering error; the context at the throw is the one before that directive (reset,
  if the directive says so), its link cleared. This is so when the directives come right after the TABLE line, and also
  when lines that leave the table the last one of its section (no TABLE or SECTION line, no
  DESTINATION to CELL or HEAD) stand before the first CELL directive and between the two:
  whenever the pass accepts these lines, it accepts the first CELL directive, the table
  then has the one row with the one cell, and the next CELL directive ends the pass with
  the \<^verbatim>\<open>RangeError\<close>.
\<close>

theorem zero_columns_not_rejected:
  assumes "run (init_ctx opts d) pre = Inr s"
  shows "(\<exists>s1 older.
      run (init_ctx opts d) (pre @ [TypeLine r (T_TABLE 0), cell_line (r1, h1)]) = Inr s1
    \<and> childNodes (sect s1)
        = older @ [Element ''table'' [] [] (Some 0) [Element ''tr'' [] [] None [table_cell h1]]]
    \<and> run (init_ctx opts d)
        (pre @ [TypeLine r (T_TABLE 0), cell_line (r1, h1), cell_line (r2, h2)])
        = Inl (RangeError, (if r2 then reset s1 else s1)\<lparr>link := None\<rparr>))
    \<and> (list_all keeps_table rest1 \<longrightarrow>
         (\<forall>s0. run (init_ctx opts d) (pre @ TypeLine r (T_TABLE 0) # rest1) = Inr s0 \<longrightarrow>
            (\<exists>s1. run (init_ctx opts d) (pre @ TypeLine r (T_TABLE 0) # rest1 @ [cell_line (r1, h1)])
                    = Inr s1))
       \<and> (list_all keeps_table rest2 \<longrightarrow>
         (\<forall>s2. run (init_ctx opts d)
                 (pre @ TypeLine r (T_TABLE 0) # rest1 @ cell_line (r1, h1) # rest2) = Inr s2 \<longrightarrow>
            (\<exists>tb. declared_table s s2 = Some tb \<and> is_tag ''table'' tb \<and> fltColumns tb = Some 0
                 \<and> map (\<lambda>row. (tagName row, map tagName (childNodes row))) (childNodes tb)
                     = [(Some ''tr'', [Some (cell_tag h1)])])
            \<and> run (init_ctx opts d)
                 (pre @ TypeLine r (T_TABLE 0) # rest1 @ cell_line (r1, h1) # rest2
                    @ [cell_line (r2, h2)])
                = Inl (RangeError, (if r2 then reset s2 else s2)\<lparr>link := None\<rparr>))))"
proof (rule conjI)
  show "\<exists>s1 older.
      run (init_ctx opts d) (pre @ [TypeLine r (T_TABLE 0), cell_line (r1, h1)]) = Inr s1
    \<and> childNodes (sect s1)
        = older @ [Element ''table'' [] [] (Some 0) [Element ''tr'' [] [] None [table_cell h1]]]
    \<and> run (init_ctx opts d)
        (pre @ [TypeLine r (T_TABLE 0), cell_line (r1, h1), cell_line (r2, h2)])
        = Inl (RangeError, (if r2 then reset s1 else s1)\<lparr>link := None\<rparr>)"
    by (rule zero_columns_consecutive[OF assms])
next
  show "list_all keeps_table rest1 \<longrightarrow>
         (\<forall>s0. run (init_ctx opts d) (pre @ TypeLine r (T_TABLE 0) # rest1) = Inr s0 \<longrightarrow>
            (\<exists>s1. run (init_ctx opts d) (pre @ TypeLine r (T_TABLE 0) # rest1 @ [cell_line (r1, h1)])
                    = Inr s1))
       \<and> (list_all keeps_table rest2 \<longrightarrow>
         (\<forall>s2. run (init_ctx opts d)
                 (pre @ TypeLine r (T_TABLE 0) # rest1 @ cell_line (r1, h1) # rest2) = Inr s2 \<longrightarrow>
            (\<exists>tb. declared_table s s2 = Some tb \<and> is_tag ''table'' tb \<and> fltColumns tb = Some 0
                 \<and> map (\<lambda>row. (tagName row, map tagName (childNodes row))) (childNodes tb)
                     = [(Some ''tr'', [Some (cell_tag h1)])])
            \<and> run (init_ctx opts d)
                 (pre @ TypeLine r (T_TABLE 0) # rest1 @ cell_line (r1, h1) # rest2
                    @ [cell_line (r2, h2)])
                = Inl (RangeError, (if r2 then reset s2 else s2)\<lparr>link := None\<rparr>)))"
  proof (rule impI)
    assume k1: "list_all keeps_table rest1"
    show "(\<forall>s0. run (init_ctx opts d) (pre @ TypeLine r (T_TABLE 0) # rest1) = Inr s0 \<longrightarrow>
            (\<exists>s1. run (init_ctx opts d) (pre @ TypeLine r (T_TABLE 0) # rest1 @ [cell_line (r1, h1)])
                    = Inr s1))
       \<and> (list_all keeps_table rest2 \<longrightarrow>
         (\<forall>s2. run (init_ctx opts d)
                 (pre @ TypeLine r (T_TABLE 0) # rest1 @ cell_line (r1, h1) # rest2) = Inr s2 \<longrightarrow>
            (\<exists>tb. declared_table s s2 = Some tb \<and> is_tag ''table'' tb \<and> fltColumns tb = Some 0
                 \<and> map (\<lambda>row. (tagName row, map tagName (childNodes row))) (childNodes tb)
                     = [(Some ''tr'', [Some (cell_tag h1)])])
            \<and> run (init_ctx opts d)
                 (pre @ TypeLine r (T_TABLE 0) # rest1 @ cell_line (r1, h1) # rest2
                    @ [cell_line (r2, h2)])
                = Inl (RangeError, (if r2 then reset s2 else s2)\<lparr>link := None\<rparr>)))"
      by (rule zero_columns_between[OF assms k1])
  qed
qed

theorem zero_columns_not_rejected_witness:
  "run (init_ctx default_options (plain_document [])) [] = Inr (init_ctx default_options (plain_document []))
   \<and> (\<exists>s1 older.
      run (init_ctx default_options (plain_document []))
        ([] @ [TypeLine False (T_TABLE 0), cell_line (False, False)]) = Inr s1
    \<and> childNodes (sect s1)
        = older @ [Element ''table'' [] [] (Some 0)
                     [Element ''tr'' [] [] None [Element ''td'' [] [] None []]]]
    \<and> run (init_ctx default_options (plain_document []))
        ([] @ [TypeLine False (T_TABLE 0), cell_line (False, False), cell_line (False, True)])
        = Inl (RangeError, s1\<lparr>link := None\<rparr>))
   \<and> list_all keeps_table [TextLine False (plain_text ''x'')]
   \<and> list_all keeps_table [TextLine False (plain_text ''A'')]
   \<and> run (init_ctx default_options (plain_document []))
        ([] @ TypeLine False (T_TABLE 0) # [TextLine False (plain_text ''x'')])
      = Inr ((init_ctx default_options (plain_document []))
          \<lparr>sect := Element ''section'' [] [] None
                     [Element ''table'' [] [] (Some 0) [],
                      Element ''p'' [] [] None [Text ''x'']]\<rparr>)
   \<and> (\<exists>s1. run (init_ctx default_options (plain_document []))
        ([] @ TypeLine False (T_TABLE 0) # [TextLine False (plain_text ''x'')]
           @ [cell_line (False, False)]) = Inr s1)
   \<and> run (init_ctx default_options (plain_document []))
        ([] @ TypeLine False (T_TABLE 0) # [TextLine False (plain_text ''x'')]
           @ cell_line (False, False) # [TextLine False (plain_text ''A'')])
      = Inr ((init_ctx default_options (plain_document []))
          \<lparr>sect := Element ''section'' [] [] None
                     [Element ''table'' [] [] (Some 0)
                        [Element ''tr'' [] [] None [Element ''td'' [] [] None [Text ''A'']]],
                      Element ''p'' [] [] None [Text ''x'']],
           dest := D_CELL\<rparr>)
   \<and> (\<exists>tb. declared_table (init_ctx default_options (plain_document []))
              ((init_ctx default_options (plain_document []))
                \<lparr>sect := Element ''section'' [] [] None
                     [Element ''table'' [] [] (Some 0)
                        [Element ''tr'' [] [] None [Element ''td'' [] [] None [Text ''A'']]],
                      Element ''p'' [] [] None [Text ''x'']],
                 dest := D_CELL\<rparr>) = Some tb
          \<and> is_tag ''table'' tb \<and> fltColumns tb = Some 0
          \<and> map (\<lambda>row. (tagName row, map tagName (childNodes row))) (childNodes tb)
              = [(Some ''tr'', [Some ''td''])])
   \<and> run (init_ctx default_options (plain_document []))
        ([] @ TypeLine False (T_TABLE 0) # [TextLine False (plain_text ''x'')]
           @ cell_line (False, False) # [TextLine False (plain_text ''A'')]
           @ [cell_line (False, True)])
      = Inl (RangeError,
          (init_ctx default_options (plain_document []))
          \<lparr>sect := Element ''section'' [] [] None
                     [Element ''table'' [] [] (Some 0)
                        [Element ''tr'' [] [] None [Element ''td'' [] [] None [Text ''A'']]],
                      Element ''p'' [] [] None [Text ''x'']],
           dest := D_CELL, link := None\<rparr>)"
proof -
  let ?init = "init_ctx default_options (plain_document [])"
  let ?r1 = "[TextLine False (plain_text ''x'')]"
  let ?r2 = "[TextLine False (plain_text ''A'')]"
  let ?S0 = "?init\<lparr>sect := Element ''section'' [] [] None
                     [Element ''table'' [] [] (Some 0) [],
                      Element ''p'' [] [] None [Text ''x'']]\<rparr>"
  let ?S2 = "?init\<lparr>sect := Element ''section'' [] [] None
                     [Element ''table'' [] [] (Some 0)
                        [Element ''tr'' [] [] None [Element ''td'' [] [] None [Text ''A'']]],
                      Element ''p'' [] [] None [Text ''x'']],
                 dest := D_CELL\<rparr>"
  have h: "run ?init [] = Inr ?init" by simp
  have k1: "list_all keeps_table ?r1" by simp
  have k2: "list_all keeps_table ?r2" by simp
  have r0: "run ?init ([] @ TypeLine False (T_TABLE 0) # ?r1) = Inr ?S0" by code_simp
  have r2: "run ?init ([] @ TypeLine False (T_TABLE 0) # ?r1 @ cell_line (False, False) # ?r2)
      = Inr ?S2" by code_simp
  note T = zero_columns_not_rejected[OF h, of False False False False True ?r1 ?r2]
  from T have a: "\<exists>s1 older.
      run ?init ([] @ [TypeLine False (T_TABLE 0), cell_line (False, False)]) = Inr s1
    \<and> childNodes (sect s1)
        = older @ [Element ''table'' [] [] (Some 0)
                     [Element ''tr'' [] [] None [Element ''td'' [] [] None []]]]
    \<and> run ?init
        ([] @ [TypeLine False (T_TABLE 0), cell_line (False, False), cell_line (False, True)])
        = Inl (RangeError, s1\<lparr>link := None\<rparr>)"
    by (simp add: table_cell_def)
  note G = T[THEN conjunct2, THEN mp, OF k1]
  from G[THEN conjunct1, THEN spec, THEN mp, OF r0]
  have b: "\<exists>s1. run ?init ([] @ TypeLine False (T_TABLE 0) # ?r1 @ [cell_line (False, False)]) = Inr s1" .
  note H = G[THEN conjunct2, THEN mp, OF k2, THEN spec, THEN mp, OF r2]
  from H[THEN conjunct1]
  have c: "\<exists>tb. declared_table ?init ?S2 = Some tb \<and> is_tag ''table'' tb \<and> fltColumns tb = Some 0
          \<and> map (\<lambda>row. (tagName row, map tagName (childNodes row))) (childNodes tb)
              = [(Some ''tr'', [Some ''td''])]"
    by (simp add: cell_tag_def)
  from H[THEN conjunct2]
  have e: "run ?init ([] @ TypeLine False (T_TABLE 0) # ?r1 @ cell_line (False, False) # ?r2
           @ [cell_line (False, True)])
      = Inl (RangeError, ?S2\<lparr>link := None\<rparr>)"
    by simp
  from h a k1 k2 r0 b r2 c e show ?thesis by (intro conjI)
qed

text \<open>
  The pass over a table of column count 0 and one CELL directive returns; with a second
  CELL directive it ends with the \<^verbatim>\<open>RangeError\<close>.
\<close>

theorem zero_columns_counterexample:
  "run (init_ctx default_options (plain_document []))
     [TypeLine False (T_TABLE 0), TypeLine False (T_DESTINATION D_CELL False)]
   = Inr \<lparr>noteIndex = 1, link = None, hint = None, blob = None, body = [],
          sect = Element ''section'' [] [] None
                   [Element ''table'' [] [] (Some 0)
                      [Element ''tr'' [] [] None [Element ''td'' [] [] None []]]],
          dest = D_CELL\<rparr>
   \<and> run (init_ctx default_options (plain_document []))
     [TypeLine False (T_TABLE 0), TypeLine False (T_DESTINATION D_CELL False),
      TypeLine False (T_DESTINATION D_CELL False)]
   = Inl (RangeError,
        \<lparr>noteIndex = 1, link = None, hint = None, blob = None, body = [],
          sect = Element ''section'' [] [] None
                   [Element ''table'' [] [] (Some 0)
                      [Element ''tr'' [] [] None [Element ''td'' [] [] None []]]],
          dest = D_CELL\<rparr>)"
  by code_simp

end
